theory Spec2Isabelle
  imports Complex_Main "HOL-Library.Word"
begin

section \<open>JavaScript numbers and strings, as far as the two containers use them\<close>

text \<open>
  A JavaScript string is a sequence of UTF-16 code units; \<open>charCodeAt\<close> reads one of them.
\<close>

type_synonym jsstring = "16 word list"

text \<open>
  JavaScript numbers are binary64 doubles.  Every number the hash function computes is a
  non-negative integer-valued double or \<open>Infinity\<close>: it starts at 0 and each step multiplies
  by 31 and adds a code unit, each of the two operations rounding its exact result to the
  nearest double, ties to even, and to \<open>Infinity\<close> from \<open>2^1024 - 2^970\<close> on.

  \<open>bits n\<close> is the length of the binary numeral of \<open>n\<close>.  For a positive fraction \<open>n / d\<close>,
  \<open>exponent53 n d\<close> is the exponent \<open>e\<close> with \<open>2^52 \<le> n / (d * 2^e) < 2^53\<close>, \<open>round_at n d e\<close>
  is \<open>n / (d * 2^e)\<close> rounded to the nearest integer, ties to even, and \<open>nearest53 n d\<close> is
  the pair \<open>(m, e)\<close> of the double \<open>m * 2^e\<close> nearest to \<open>n / d\<close>.
\<close>

fun bits :: "nat \<Rightarrow> nat" where
  "bits n = (if n = 0 then 0 else 1 + bits (n div 2))"

declare bits.simps [simp del]

definition exponent53 :: "nat \<Rightarrow> nat \<Rightarrow> int" where
  "exponent53 n d =
     (let e0 = int (bits n) - int (bits d) - 53
      in if (n * 2 ^ nat (- e0)) div (d * 2 ^ nat e0) < 2 ^ 53 then e0 else e0 + 1)"

definition round_at :: "nat \<Rightarrow> nat \<Rightarrow> int \<Rightarrow> nat" where
  "round_at n d e =
     (let num = n * 2 ^ nat (- e);
          den = d * 2 ^ nat e;
          q = num div den;
          r = num mod den
      in if den < 2 * r \<or> (2 * r = den \<and> odd q) then q + 1 else q)"

definition nearest53 :: "nat \<Rightarrow> nat \<Rightarrow> nat \<times> int" where
  "nearest53 n d = (let e = exponent53 n d in (round_at n d e, e))"

datatype hashcode = Finite nat | Infinity

definition fl :: "nat \<Rightarrow> hashcode" where
  "fl n = (if n < 2 ^ 53 then Finite n
           else (case nearest53 n 1 of (m, e) \<Rightarrow>
                  if 2 ^ 1024 \<le> m * 2 ^ nat e then Infinity else Finite (m * 2 ^ nat e)))"

fun js_mul :: "nat \<Rightarrow> hashcode \<Rightarrow> hashcode" where
  "js_mul a (Finite h) = fl (a * h)"
| "js_mul a Infinity = Infinity"

fun js_add :: "hashcode \<Rightarrow> nat \<Rightarrow> hashcode" where
  "js_add (Finite h) c = fl (h + c)"
| "js_add Infinity c = Infinity"

text \<open>
  The quotient \<open>size / capacity\<close> of the load check: \<open>size\<close> is an integer (it only moves by
  \<open>++\<close> and \<open>--\<close> from 0, far below \<open>2^53\<close>, where these are exact), \<open>capacity\<close> a natural
  number, and the result is the nearest double, \<open>NaN\<close> for \<open>0 / 0\<close>, or an infinity for a
  division of a non-zero size by 0.  The load factor is a finite double, that is, a rational
  number; \<open>js_gt\<close> and \<open>js_le\<close> are the comparisons \<open>>\<close> and \<open><=\<close> of a quotient with it.
\<close>

datatype quotient = QNaN | QNegInf | QNum rat | QInf

definition js_div :: "int \<Rightarrow> nat \<Rightarrow> quotient" where
  "js_div a b =
     (if b = 0 then (if a = 0 then QNaN else if 0 < a then QInf else QNegInf)
      else if a = 0 then QNum 0
      else (case nearest53 (nat \<bar>a\<bar>) b of (m, e) \<Rightarrow>
              QNum (of_int (sgn a) *
                (if 0 \<le> e then of_nat m * 2 ^ nat e else of_nat m / 2 ^ nat (- e)))))"

fun js_gt :: "quotient \<Rightarrow> rat \<Rightarrow> bool" where
  "js_gt QNaN y = False"
| "js_gt QNegInf y = False"
| "js_gt (QNum x) y = (y < x)"
| "js_gt QInf y = True"

fun js_le :: "quotient \<Rightarrow> rat \<Rightarrow> bool" where
  "js_le QNaN y = False"
| "js_le QNegInf y = True"
| "js_le (QNum x) y = (x \<le> y)"
| "js_le QInf y = False"

text \<open>
  The values a client stores (a fragment of the JavaScript values that has \<open>null\<close>, which
  \<open>get\<close> answers for a key it does not find, and the other falsy values).
\<close>

datatype jsval = JUndefined | JNull | JBool bool | JNum int | JStr jsstring

text \<open>\<open>new Array(n)\<close> throws a \<open>RangeError\<close> unless \<open>n\<close> is an integer below \<open>2^32\<close>.\<close>

datatype error = RangeError

definition valid_array_length :: "nat \<Rightarrow> bool" where
  "valid_array_length n = (n < 2 ^ 32)"

section \<open>The hash function and the bucket index (the same text in both classes)\<close>

text \<open>
  \<open>hash\<close>: the loop \<open>hashCode = primeNumber * hashCode + key.charCodeAt(i)\<close> over the code
  units of the key, from \<open>hashCode = 0\<close>.
\<close>

fun hash_loop :: "hashcode \<Rightarrow> jsstring \<Rightarrow> hashcode" where
  "hash_loop hashCode [] = hashCode"
| "hash_loop hashCode (c # cs) = hash_loop (js_add (js_mul 31 hashCode) (unat c)) cs"

definition hash :: "jsstring \<Rightarrow> hashcode" where
  "hash key = hash_loop (Finite 0) key"

text \<open>
  \<open>_getIndex\<close>: \<open>Math.abs(hashCode) % capacity\<close>.  The hash is never negative; the remainder of
  a finite double is exact; the remainder of \<open>Infinity\<close>, and any remainder by 0, is \<open>NaN\<close>
  (here \<open>None\<close>).  \<open>load_exceeded\<close> is the test of \<open>_shouldResize\<close>,
  \<open>(size / capacity) > loadFactor\<close>.
\<close>

fun getIndex :: "hashcode \<Rightarrow> nat \<Rightarrow> nat option" where
  "getIndex (Finite h) capacity = (if capacity = 0 then None else Some (h mod capacity))"
| "getIndex Infinity capacity = None"

definition load_exceeded :: "int \<Rightarrow> nat \<Rightarrow> rat \<Rightarrow> bool" where
  "load_exceeded sz cap lf = js_gt (js_div sz cap) lf"

section \<open>HashMap\<close>

text \<open>
  A bucket's linked list of nodes is the list of its (key, value) pairs, head first; an empty
  slot (\<open>undefined\<close>, or \<open>null\<close> after the removal of a last node) is the empty list.  The
  storage array is the map from its property names to buckets: \<open>Some i\<close> is the index \<open>i\<close>,
  \<open>None\<close> the property \<open>NaN\<close>, which \<open>storage[NaN]\<close> reads and writes.  The constructor's
  \<open>new Array(initialCapacity)\<close> makes every slot empty.
\<close>

type_synonym chain = "(jsstring \<times> jsval) list"

record hashmap =
  m_storage :: "nat option \<Rightarrow> chain"
  m_size :: int
  m_capacity :: nat
  m_loadFactor :: rat

definition HashMap :: "nat \<Rightarrow> rat \<Rightarrow> error + hashmap" where
  "HashMap initialCapacity loadFactor =
     (if valid_array_length initialCapacity
      then Inr \<lparr>m_storage = (\<lambda>_. []), m_size = 0,
                m_capacity = initialCapacity, m_loadFactor = loadFactor\<rparr>
      else Inl RangeError)"

definition m_index :: "hashmap \<Rightarrow> jsstring \<Rightarrow> nat option" where
  "m_index s key = getIndex (hash key) (m_capacity s)"

definition m_shouldResize :: "hashmap \<Rightarrow> bool" where
  "m_shouldResize s = load_exceeded (m_size s) (m_capacity s) (m_loadFactor s)"

text \<open>
  The walks along one bucket.  \<open>chain_set\<close> is the walk of \<open>set\<close>: an empty bucket gets the
  new node; a node with the key, at the head or behind it, gets the new value; at the end of
  the chain the new node is appended.  Its boolean says whether a node was added rather than a
  value overwritten in place.  \<open>chain_get\<close> and \<open>chain_has\<close> are the loops of \<open>get\<close> and
  \<open>has\<close>, \<open>chain_remove\<close> the splice of \<open>remove\<close> with its found flag.
\<close>

fun chain_set :: "chain \<Rightarrow> jsstring \<Rightarrow> jsval \<Rightarrow> chain \<times> bool" where
  "chain_set [] key v = ([(key, v)], True)"
| "chain_set ((k, w) # ns) key v =
     (if k = key then ((k, v) # ns, False)
      else (case chain_set ns key v of (ns', added) \<Rightarrow> ((k, w) # ns', added)))"

fun chain_get :: "chain \<Rightarrow> jsstring \<Rightarrow> jsval" where
  "chain_get [] key = JNull"
| "chain_get ((k, w) # ns) key = (if k = key then w else chain_get ns key)"

fun chain_has :: "chain \<Rightarrow> jsstring \<Rightarrow> bool" where
  "chain_has [] key = False"
| "chain_has ((k, w) # ns) key = (if k = key then True else chain_has ns key)"

fun chain_remove :: "chain \<Rightarrow> jsstring \<Rightarrow> chain \<times> bool" where
  "chain_remove [] key = ([], False)"
| "chain_remove ((k, w) # ns) key =
     (if k = key then (ns, True)
      else (case chain_remove ns key of (ns', found) \<Rightarrow> ((k, w) # ns', found)))"

text \<open>
  \<open>entries\<close>, \<open>keys\<close> and \<open>values\<close>: three loops of one shape, over the indices
  \<open>0 .. capacity - 1\<close> and along each chain.
\<close>

definition m_entries :: "hashmap \<Rightarrow> (jsstring \<times> jsval) list" where
  "m_entries s = concat (map (\<lambda>i. m_storage s (Some i)) [0..<m_capacity s])"

definition m_keys :: "hashmap \<Rightarrow> jsstring list" where
  "m_keys s = concat (map (\<lambda>i. map fst (m_storage s (Some i))) [0..<m_capacity s])"

definition m_values :: "hashmap \<Rightarrow> jsval list" where
  "m_values s = concat (map (\<lambda>i. map snd (m_storage s (Some i))) [0..<m_capacity s])"

text \<open>
  \<open>m_put\<close> is the part of \<open>set\<close> before the load check, with the flag of the walk.
\<close>

definition m_put :: "hashmap \<Rightarrow> jsstring \<Rightarrow> jsval \<Rightarrow> hashmap \<times> bool" where
  "m_put s key v =
     (let index = m_index s key in
      case chain_set (m_storage s index) key v of
        (c, added) \<Rightarrow>
          (s\<lparr>m_storage := (m_storage s)(index := c),
             m_size := (if added then m_size s + 1 else m_size s)\<rparr>, added))"

text \<open>
  \<open>m_fresh\<close> is the three assignments of \<open>_resize\<close> before its loop.  \<open>set\<close> returns at once
  after an overwrite and otherwise runs the load check; \<open>_resize\<close> takes the old entries,
  doubles the capacity, allocates (or throws) and re-inserts the old entries with \<open>set\<close>,
  which is \<open>m_rehash\<close>, the \<open>for\<close> loop.
\<close>

definition m_fresh :: "hashmap \<Rightarrow> hashmap" where
  "m_fresh s = s\<lparr>m_capacity := 2 * m_capacity s, m_storage := (\<lambda>_. []), m_size := 0\<rparr>"

function m_set :: "hashmap \<Rightarrow> jsstring \<Rightarrow> jsval \<Rightarrow> error + hashmap"
  and m_resize :: "hashmap \<Rightarrow> error + hashmap"
  and m_rehash :: "hashmap \<Rightarrow> (jsstring \<times> jsval) list \<Rightarrow> error + hashmap"
where
  "m_set s key v =
     (case m_put s key v of
        (s1, added) \<Rightarrow>
          if \<not> added then Inr s1
          else if m_shouldResize s1 then m_resize s1 else Inr s1)"
| "m_resize s =
     (if valid_array_length (2 * m_capacity s) then m_rehash (m_fresh s) (m_entries s)
      else Inl RangeError)"
| "m_rehash s [] = Inr s"
| "m_rehash s ((key, v) # oldEntries) =
     (case m_set s key v of
        Inl e \<Rightarrow> Inl e
      | Inr s' \<Rightarrow> m_rehash s' oldEntries)"
  by pat_completeness auto

lemma m_put_capacity: "m_put s key v = (s1, added) \<Longrightarrow> m_capacity s1 = m_capacity s"
  by (auto simp: m_put_def Let_def split: prod.splits)

lemma m_fresh_capacity: "m_capacity (m_fresh s) = 2 * m_capacity s"
  by (simp add: m_fresh_def)

lemma m_entries_capacity_0: "m_capacity s = 0 \<Longrightarrow> m_entries s = []"
  by (simp add: m_entries_def)

lemma m_set_dom_capacity:
  "m_set_m_resize_m_rehash_dom (Inl (s, key, v)) \<Longrightarrow>
     (\<forall>s'. m_set s key v = Inr s' \<longrightarrow> m_capacity s \<le> m_capacity s')"
  "m_set_m_resize_m_rehash_dom (Inr (Inl s)) \<Longrightarrow>
     (\<forall>s'. m_resize s = Inr s' \<longrightarrow> m_capacity s \<le> m_capacity s')"
  "m_set_m_resize_m_rehash_dom (Inr (Inr (s, es))) \<Longrightarrow>
     (\<forall>s'. m_rehash s es = Inr s' \<longrightarrow> m_capacity s \<le> m_capacity s')"
proof (induction rule: m_set_m_resize_m_rehash.pinduct)
  case (1 s key v)
  show ?case
  proof (cases "m_put s key v")
    case (Pair s1 added)
    with 1 show ?thesis
      by (auto simp: m_set.psimps m_put_capacity split: if_splits)
  qed
next
  case (2 s)
  then show ?case
    by (auto simp: m_resize.psimps m_fresh_capacity split: if_splits)
next
  case (3 s)
  then show ?case by (simp add: m_rehash.psimps)
next
  case (4 s key v oldEntries)
  then show ?case
    by (fastforce simp: m_rehash.psimps split: sum.splits)
qed

text \<open>
  The recursion ends: a nested resize doubles a positive capacity, which \<open>new Array\<close> bounds,
  and a table of capacity 0 has no entries to re-insert.
\<close>

definition m_rank ::
  "hashmap \<times> jsstring \<times> jsval + hashmap + hashmap \<times> (jsstring \<times> jsval) list \<Rightarrow> nat \<times> nat" where
  "m_rank c = (case c of
       Inl (s, key, v) \<Rightarrow> (2 ^ 32 - m_capacity s, 2)
     | Inr (Inl s) \<Rightarrow> (2 ^ 32 - m_capacity s, 1)
     | Inr (Inr (s, es)) \<Rightarrow> (2 ^ 32 - m_capacity s, if es = [] then 0 else length es + 2))"

termination m_set
proof (relation "inv_image (less_than <*lex*> less_than) m_rank")
  show "wf (inv_image (less_than <*lex*> less_than) m_rank)"
    by (intro wf_inv_image wf_lex_prod wf_less_than)
next
  fix s key v s1 added
  assume "(s1, added) = m_put s key v"
  then show "(Inr (Inl s1), Inl (s, key, v)) \<in> inv_image (less_than <*lex*> less_than) m_rank"
    by (simp add: m_rank_def m_put_capacity [OF sym])
next
  fix s :: hashmap
  assume "valid_array_length (2 * m_capacity s)"
  then show "(Inr (Inr (m_fresh s, m_entries s)), Inr (Inl s))
      \<in> inv_image (less_than <*lex*> less_than) m_rank"
    by (cases "m_capacity s = 0")
      (auto simp: m_rank_def m_fresh_capacity m_entries_capacity_0 valid_array_length_def)
next
  fix s key v oldEntries
  show "(Inl (s, key, v), Inr (Inr (s, (key, v) # oldEntries)))
      \<in> inv_image (less_than <*lex*> less_than) m_rank"
    by (simp add: m_rank_def)
next
  fix s key v oldEntries s'
  assume "m_set s key v = Inr s'" "m_set_m_resize_m_rehash_dom (Inl (s, key, v))"
  then have "m_capacity s \<le> m_capacity s'"
    using m_set_dom_capacity(1) by blast
  then show "(Inr (Inr (s', oldEntries)), Inr (Inr (s, (key, v) # oldEntries)))
      \<in> inv_image (less_than <*lex*> less_than) m_rank"
    by (auto simp: m_rank_def)
qed

declare m_set.simps [simp del] m_resize.simps [simp del]

text \<open>\<open>get\<close>, \<open>has\<close>, \<open>remove\<close>, \<open>length\<close> and \<open>clear\<close>.\<close>

definition m_get :: "hashmap \<Rightarrow> jsstring \<Rightarrow> jsval" where
  "m_get s key = chain_get (m_storage s (m_index s key)) key"

definition m_has :: "hashmap \<Rightarrow> jsstring \<Rightarrow> bool" where
  "m_has s key = chain_has (m_storage s (m_index s key)) key"

definition m_remove :: "hashmap \<Rightarrow> jsstring \<Rightarrow> hashmap \<times> bool" where
  "m_remove s key =
     (let index = m_index s key in
      case chain_remove (m_storage s index) key of
        (c, found) \<Rightarrow>
          (if found
           then s\<lparr>m_storage := (m_storage s)(index := c), m_size := m_size s - 1\<rparr>
           else s, found))"

definition m_length :: "hashmap \<Rightarrow> int" where
  "m_length s = m_size s"

definition m_clear :: "hashmap \<Rightarrow> error + hashmap" where
  "m_clear s =
     (if valid_array_length (m_capacity s)
      then Inr (s\<lparr>m_storage := (\<lambda>_. []), m_size := 0\<rparr>)
      else Inl RangeError)"

text \<open>A client program: a finite sequence of mutating calls on one map.\<close>

datatype m_op = Set jsstring jsval | Remove jsstring | Clear

fun m_apply :: "hashmap \<Rightarrow> m_op \<Rightarrow> error + hashmap" where
  "m_apply s (Set key v) = m_set s key v"
| "m_apply s (Remove key) = Inr (fst (m_remove s key))"
| "m_apply s Clear = m_clear s"

fun m_run :: "hashmap \<Rightarrow> m_op list \<Rightarrow> error + hashmap" where
  "m_run s [] = Inr s"
| "m_run s (c # cs) = (case m_apply s c of Inl e \<Rightarrow> Inl e | Inr s' \<Rightarrow> m_run s' cs)"

section \<open>HashSet\<close>

text \<open>
  A slot of the set's storage is \<open>undefined\<close> (\<open>None\<close>) or a JavaScript \<open>Set\<close> of keys, which
  keeps its elements in insertion order and iterates them in that order.
\<close>

definition jsset_has :: "jsstring list \<Rightarrow> jsstring \<Rightarrow> bool" where
  "jsset_has ks key = (key \<in> set ks)"

definition jsset_add :: "jsstring list \<Rightarrow> jsstring \<Rightarrow> jsstring list" where
  "jsset_add ks key = (if key \<in> set ks then ks else ks @ [key])"

definition jsset_delete :: "jsstring list \<Rightarrow> jsstring \<Rightarrow> jsstring list" where
  "jsset_delete ks key = removeAll key ks"

record hashset =
  s_storage :: "nat option \<Rightarrow> jsstring list option"
  s_size :: int
  s_capacity :: nat
  s_loadFactor :: rat

definition HashSet :: "nat \<Rightarrow> rat \<Rightarrow> error + hashset" where
  "HashSet initialCapacity loadFactor =
     (if valid_array_length initialCapacity
      then Inr \<lparr>s_storage = (\<lambda>_. None), s_size = 0,
                s_capacity = initialCapacity, s_loadFactor = loadFactor\<rparr>
      else Inl RangeError)"

definition s_index :: "hashset \<Rightarrow> jsstring \<Rightarrow> nat option" where
  "s_index s key = getIndex (hash key) (s_capacity s)"

definition s_shouldResize :: "hashset \<Rightarrow> bool" where
  "s_shouldResize s = load_exceeded (s_size s) (s_capacity s) (s_loadFactor s)"

definition s_keys :: "hashset \<Rightarrow> jsstring list" where
  "s_keys s =
     concat (map (\<lambda>i. case s_storage s (Some i) of None \<Rightarrow> [] | Some ks \<Rightarrow> ks)
       [0..<s_capacity s])"

text \<open>
  \<open>s_put\<close> is the part of \<open>add\<close> before the load check: an empty slot gets a new \<open>Set\<close>, and
  the key is added and counted unless the bucket has it.  \<open>add\<close> runs the load check in
  either case.
\<close>

definition s_put :: "hashset \<Rightarrow> jsstring \<Rightarrow> hashset" where
  "s_put s key =
     (let index = s_index s key;
          bucket = (case s_storage s index of None \<Rightarrow> [] | Some ks \<Rightarrow> ks)
      in if \<not> jsset_has bucket key
         then s\<lparr>s_storage := (s_storage s)(index := Some (jsset_add bucket key)),
                s_size := s_size s + 1\<rparr>
         else s\<lparr>s_storage := (s_storage s)(index := Some bucket)\<rparr>)"

definition s_fresh :: "hashset \<Rightarrow> hashset" where
  "s_fresh s = s\<lparr>s_capacity := 2 * s_capacity s, s_storage := (\<lambda>_. None), s_size := 0\<rparr>"

function s_add :: "hashset \<Rightarrow> jsstring \<Rightarrow> error + hashset"
  and s_resize :: "hashset \<Rightarrow> error + hashset"
  and s_rehash :: "hashset \<Rightarrow> jsstring list \<Rightarrow> error + hashset"
where
  "s_add s key =
     (let s1 = s_put s key in if s_shouldResize s1 then s_resize s1 else Inr s1)"
| "s_resize s =
     (if valid_array_length (2 * s_capacity s) then s_rehash (s_fresh s) (s_keys s)
      else Inl RangeError)"
| "s_rehash s [] = Inr s"
| "s_rehash s (key # oldKeys) =
     (case s_add s key of
        Inl e \<Rightarrow> Inl e
      | Inr s' \<Rightarrow> s_rehash s' oldKeys)"
  by pat_completeness auto

lemma s_put_capacity: "s_capacity (s_put s key) = s_capacity s"
  by (simp add: s_put_def Let_def)

lemma s_fresh_capacity: "s_capacity (s_fresh s) = 2 * s_capacity s"
  by (simp add: s_fresh_def)

lemma s_keys_capacity_0: "s_capacity s = 0 \<Longrightarrow> s_keys s = []"
  by (simp add: s_keys_def)

lemma s_add_dom_capacity:
  "s_add_s_resize_s_rehash_dom (Inl (s, key)) \<Longrightarrow>
     (\<forall>s'. s_add s key = Inr s' \<longrightarrow> s_capacity s \<le> s_capacity s')"
  "s_add_s_resize_s_rehash_dom (Inr (Inl s)) \<Longrightarrow>
     (\<forall>s'. s_resize s = Inr s' \<longrightarrow> s_capacity s \<le> s_capacity s')"
  "s_add_s_resize_s_rehash_dom (Inr (Inr (s, ks))) \<Longrightarrow>
     (\<forall>s'. s_rehash s ks = Inr s' \<longrightarrow> s_capacity s \<le> s_capacity s')"
proof (induction rule: s_add_s_resize_s_rehash.pinduct)
  case (1 s key)
  then show ?case
    by (auto simp: s_add.psimps s_put_capacity Let_def split: if_splits)
next
  case (2 s)
  then show ?case
    by (auto simp: s_resize.psimps s_fresh_capacity split: if_splits)
next
  case (3 s)
  then show ?case by (simp add: s_rehash.psimps)
next
  case (4 s key oldKeys)
  then show ?case
    by (fastforce simp: s_rehash.psimps split: sum.splits)
qed

definition s_rank :: "hashset \<times> jsstring + hashset + hashset \<times> jsstring list \<Rightarrow> nat \<times> nat" where
  "s_rank c = (case c of
       Inl (s, key) \<Rightarrow> (2 ^ 32 - s_capacity s, 2)
     | Inr (Inl s) \<Rightarrow> (2 ^ 32 - s_capacity s, 1)
     | Inr (Inr (s, ks)) \<Rightarrow> (2 ^ 32 - s_capacity s, if ks = [] then 0 else length ks + 2))"

termination s_add
proof (relation "inv_image (less_than <*lex*> less_than) s_rank")
  show "wf (inv_image (less_than <*lex*> less_than) s_rank)"
    by (intro wf_inv_image wf_lex_prod wf_less_than)
next
  fix s key s1
  assume "s1 = s_put s key"
  then show "(Inr (Inl s1), Inl (s, key)) \<in> inv_image (less_than <*lex*> less_than) s_rank"
    by (simp add: s_rank_def s_put_capacity)
next
  fix s :: hashset
  assume "valid_array_length (2 * s_capacity s)"
  then show "(Inr (Inr (s_fresh s, s_keys s)), Inr (Inl s))
      \<in> inv_image (less_than <*lex*> less_than) s_rank"
    by (cases "s_capacity s = 0")
      (auto simp: s_rank_def s_fresh_capacity s_keys_capacity_0 valid_array_length_def)
next
  fix s key oldKeys
  show "(Inl (s, key), Inr (Inr (s, key # oldKeys)))
      \<in> inv_image (less_than <*lex*> less_than) s_rank"
    by (simp add: s_rank_def)
next
  fix s key oldKeys s'
  assume "s_add s key = Inr s'" "s_add_s_resize_s_rehash_dom (Inl (s, key))"
  then have "s_capacity s \<le> s_capacity s'"
    using s_add_dom_capacity(1) by blast
  then show "(Inr (Inr (s', oldKeys)), Inr (Inr (s, key # oldKeys)))
      \<in> inv_image (less_than <*lex*> less_than) s_rank"
    by (auto simp: s_rank_def)
qed

declare s_add.simps [simp del] s_resize.simps [simp del]

definition s_has :: "hashset \<Rightarrow> jsstring \<Rightarrow> bool" where
  "s_has s key =
     (case s_storage s (s_index s key) of None \<Rightarrow> False | Some ks \<Rightarrow> jsset_has ks key)"

definition s_remove :: "hashset \<Rightarrow> jsstring \<Rightarrow> hashset \<times> bool" where
  "s_remove s key =
     (let index = s_index s key in
      case s_storage s index of
        None \<Rightarrow> (s, False)
      | Some ks \<Rightarrow>
          if jsset_has ks key
          then (s\<lparr>s_storage := (s_storage s)(index := Some (jsset_delete ks key)),
                  s_size := s_size s - 1\<rparr>, True)
          else (s, False))"

definition s_length :: "hashset \<Rightarrow> int" where
  "s_length s = s_size s"

definition s_clear :: "hashset \<Rightarrow> error + hashset" where
  "s_clear s =
     (if valid_array_length (s_capacity s)
      then Inr (s\<lparr>s_storage := (\<lambda>_. None), s_size := 0\<rparr>)
      else Inl RangeError)"

text \<open>A client program on one set.\<close>

datatype s_op = Add jsstring | SRemove jsstring | SClear

fun s_apply :: "hashset \<Rightarrow> s_op \<Rightarrow> error + hashset" where
  "s_apply s (Add key) = s_add s key"
| "s_apply s (SRemove key) = Inr (fst (s_remove s key))"
| "s_apply s SClear = s_clear s"

fun s_run :: "hashset \<Rightarrow> s_op list \<Rightarrow> error + hashset" where
  "s_run s [] = Inr s"
| "s_run s (c # cs) = (case s_apply s c of Inl e \<Rightarrow> Inl e | Inr s' \<Rightarrow> s_run s' cs)"

section \<open>Invariants\<close>

definition m_chains_distinct :: "hashmap \<Rightarrow> bool" where
  "m_chains_distinct s = (\<forall>ix. distinct (map fst (m_storage s ix)))"

definition m_load_ok :: "hashmap \<Rightarrow> bool" where
  "m_load_ok s =
     (0 \<le> m_loadFactor s \<and>
      (\<forall>j \<in> {0..m_size s}. \<not> load_exceeded j (m_capacity s) (m_loadFactor s)))"

definition m_load_pending :: "hashmap \<Rightarrow> bool" where
  "m_load_pending s =
     (0 \<le> m_loadFactor s \<and>
      (\<forall>j \<in> {0..m_size s - 1}. \<not> load_exceeded j (m_capacity s) (m_loadFactor s)))"

definition s_load_ok :: "hashset \<Rightarrow> bool" where
  "s_load_ok s =
     (0 \<le> s_loadFactor s \<and>
      (\<forall>j \<in> {0..s_size s}. \<not> load_exceeded j (s_capacity s) (s_loadFactor s)))"

definition s_load_pending :: "hashset \<Rightarrow> bool" where
  "s_load_pending s =
     (0 \<le> s_loadFactor s \<and>
      (\<forall>j \<in> {0..s_size s - 1}. \<not> load_exceeded j (s_capacity s) (s_loadFactor s)))"

definition m_wf :: "hashmap \<Rightarrow> bool" where
  "m_wf s =
     ((\<forall>ix. \<forall>k \<in> fst ` set (m_storage s ix). m_index s k = ix) \<and>
      (\<forall>ix. distinct (map fst (m_storage s ix))) \<and>
      m_size s = int (length (m_entries s)) + int (length (m_storage s None)))"

definition m_lookup :: "hashmap \<Rightarrow> jsstring \<Rightarrow> jsval option" where
  "m_lookup s key = map_of (m_storage s (m_index s key)) key"

fun finite_key_op :: "m_op \<Rightarrow> bool" where
  "finite_key_op (Set key v) = (hash key \<noteq> Infinity)"
| "finite_key_op (Remove key) = True"
| "finite_key_op Clear = True"

definition s_bucket :: "hashset \<Rightarrow> nat option \<Rightarrow> jsstring list" where
  "s_bucket s ix = (case s_storage s ix of None \<Rightarrow> [] | Some ks \<Rightarrow> ks)"

definition s_wf :: "hashset \<Rightarrow> bool" where
  "s_wf s =
     ((\<forall>ix. \<forall>k \<in> set (s_bucket s ix). s_index s k = ix) \<and>
      (\<forall>ix. distinct (s_bucket s ix)) \<and>
      s_size s = int (length (s_keys s)) + int (length (s_bucket s None)))"

fun finite_key_sop :: "s_op \<Rightarrow> bool" where
  "finite_key_sop (Add key) = (hash key \<noteq> Infinity)"
| "finite_key_sop (SRemove key) = True"
| "finite_key_sop SClear = True"

section \<open>Concrete keys and tables\<close>

text \<open>The key \<open>'a'.repeat(400)\<close>, and the tables \<open>new HashMap()\<close>, \<open>new HashSet()\<close> before and
  after storing the key \<open>'a'\<close>.\<close>

definition long_key :: jsstring where
  "long_key = replicate 400 97"

definition map16 :: hashmap where
  "map16 = \<lparr>m_storage = (\<lambda>_. []), m_size = 0, m_capacity = 16, m_loadFactor = 3 / 4\<rparr>"

definition map_a :: hashmap where
  "map_a = \<lparr>m_storage = (\<lambda>_. [])(Some 1 := [([97], JNum 1)]), m_size = 1,
             m_capacity = 16, m_loadFactor = 3 / 4\<rparr>"

definition map_null :: hashmap where
  "map_null = \<lparr>m_storage = (\<lambda>_. [])(Some 1 := [([97], JNull)]), m_size = 1,
                m_capacity = 16, m_loadFactor = 3 / 4\<rparr>"

definition map_zero :: hashmap where
  "map_zero = \<lparr>m_storage = (\<lambda>_. [])(Some 1 := [([97], JNum 0)]), m_size = 1,
                m_capacity = 16, m_loadFactor = 3 / 4\<rparr>"

definition set16 :: hashset where
  "set16 = \<lparr>s_storage = (\<lambda>_. None), s_size = 0, s_capacity = 16, s_loadFactor = 3 / 4\<rparr>"

definition set_a :: hashset where
  "set_a = \<lparr>s_storage = (\<lambda>_. None)(Some 1 := Some [[97]]), s_size = 1,
             s_capacity = 16, s_loadFactor = 3 / 4\<rparr>"

text \<open>Thirteen distinct one-letter keys, \<open>'a'\<close> to \<open>'m'\<close>.\<close>

definition thirteen_keys :: "(jsstring \<times> jsval) list" where
  "thirteen_keys =
     map (\<lambda>c. ([c], JNum 0)) [97, 98, 99, 100, 101, 102, 103, 104, 105, 106, 107, 108, 109]"

text \<open>\<open>new HashMap(1, 0.5)\<close> and \<open>new HashSet(1, 0.5)\<close>, and the tables that storing \<open>long_key\<close>
  leads to.\<close>

definition map1 :: hashmap where
  "map1 = \<lparr>m_storage = (\<lambda>_. []), m_size = 0, m_capacity = 1, m_loadFactor = 1 / 2\<rparr>"

definition map1_long :: hashmap where
  "map1_long = \<lparr>m_storage = (\<lambda>_. [])(None := [(long_key, JNum 1)]), m_size = 1,
                 m_capacity = 1, m_loadFactor = 1 / 2\<rparr>"

definition map2 :: hashmap where
  "map2 = \<lparr>m_storage = (\<lambda>_. []), m_size = 0, m_capacity = 2, m_loadFactor = 1 / 2\<rparr>"

definition map_long :: hashmap where
  "map_long = \<lparr>m_storage = (\<lambda>_. [])(None := [(long_key, JNum 1)]), m_size = 1,
                m_capacity = 16, m_loadFactor = 3 / 4\<rparr>"

definition set1 :: hashset where
  "set1 = \<lparr>s_storage = (\<lambda>_. None), s_size = 0, s_capacity = 1, s_loadFactor = 1 / 2\<rparr>"

definition set1_long :: hashset where
  "set1_long = \<lparr>s_storage = (\<lambda>_. None)(None := Some [long_key]), s_size = 1,
                 s_capacity = 1, s_loadFactor = 1 / 2\<rparr>"

definition set2 :: hashset where
  "set2 = \<lparr>s_storage = (\<lambda>_. None), s_size = 0, s_capacity = 2, s_loadFactor = 1 / 2\<rparr>"

definition set2_long :: hashset where
  "set2_long = \<lparr>s_storage = (\<lambda>_. None)(None := Some [long_key]), s_size = 1,
                 s_capacity = 2, s_loadFactor = 1 / 2\<rparr>"

section \<open>Properties\<close>

subsection \<open>Rounding, and the overflow of the hash of a long key\<close>

lemma bits_lower: "n \<noteq> 0 \<Longrightarrow> 2 ^ (bits n - 1) \<le> n"
proof (induction n rule: bits.induct)
  case (1 n)
  show ?case
  proof (cases "n div 2 = 0")
    case True
    with 1 have "n = 1" by (simp add: div_eq_0_iff) 
    then show ?thesis by (simp add: bits.simps)
  next
    case False
    with 1 have ih: "2 ^ (bits (n div 2) - 1) \<le> n div 2" by simp
    from False have pos: "0 < bits (n div 2)" by (subst bits.simps) simp
    have "bits n = 1 + bits (n div 2)" using 1(2) by (subst bits.simps) simp
    then have "(2::nat) ^ (bits n - 1) = 2 * 2 ^ (bits (n div 2) - 1)"
      using pos by (cases "bits (n div 2)") simp_all
    also have "\<dots> \<le> 2 * (n div 2)" using ih by simp
    also have "\<dots> \<le> n" by simp
    finally show ?thesis .
  qed
qed

lemma bits_upper: "n < 2 ^ bits n"
proof (induction n rule: bits.induct)
  case (1 n)
  show ?case
  proof (cases "n = 0")
    case True
    then show ?thesis by simp
  next
    case False
    with 1 have ih: "n div 2 < 2 ^ bits (n div 2)" by simp
    have "bits n = 1 + bits (n div 2)" using False by (subst bits.simps) simp
    then have "(2::nat) ^ bits n = 2 * 2 ^ bits (n div 2)" by simp
    with ih show ?thesis by linarith
  qed
qed

lemma bits_1: "bits 1 = 1" "bits (Suc 0) = 1"
  by (simp_all add: bits.simps)

lemma bits_ge: "2 ^ k \<le> n \<Longrightarrow> k < bits n"
proof (rule ccontr)
  assume a: "2 ^ k \<le> n" and "\<not> k < bits n"
  then have "bits n \<le> k" by simp
  then have "(2::nat) ^ bits n \<le> 2 ^ k" by (simp add: power_increasing)
  with a bits_upper [of n] show False by linarith
qed

lemma exponent53_range:
  assumes "2 ^ 53 \<le> n"
  shows "0 \<le> exponent53 n 1" and "nat (exponent53 n 1) \<le> bits n - 1"
proof -
  have b54: "53 < bits n" using assms by (rule bits_ge)
  then show "0 \<le> exponent53 n 1" and "nat (exponent53 n 1) \<le> bits n - 1"
    by (auto simp: exponent53_def Let_def bits_1)
qed

lemma round_at_ge: "0 \<le> e \<Longrightarrow> n div 2 ^ nat e \<le> round_at n 1 e"
  by (simp add: round_at_def Let_def)

lemma nearest53_lower:
  assumes big: "2 ^ 53 \<le> n" and eq: "nearest53 n 1 = (m, e)"
  shows "n \<le> 2 * (m * 2 ^ nat e)"
proof -
  have n0: "n \<noteq> 0" using big by auto
  from eq have e: "e = exponent53 n 1" and m: "m = round_at n 1 e"
    by (auto simp: nearest53_def Let_def)
  have e_nonneg: "0 \<le> e" and e_le: "nat e \<le> bits n - 1"
    using exponent53_range [OF big] by (simp_all add: e)
  define den where "den = (2::nat) ^ nat e"
  have den_le: "den \<le> n"
  proof -
    have "den \<le> 2 ^ (bits n - 1)" unfolding den_def using e_le by (simp add: power_increasing)
    also have "\<dots> \<le> n" using n0 by (rule bits_lower)
    finally show ?thesis .
  qed
  have den_pos: "0 < den" by (simp add: den_def)
  have m_ge: "n div den \<le> m"
    unfolding m den_def using e_nonneg by (rule round_at_ge)
  have q1: "1 \<le> n div den" using den_le den_pos by (simp add: div_greater_zero_iff Suc_le_eq)
  have split: "n = (n div den) * den + n mod den" by simp
  have rem: "n mod den < den" using den_pos by simp
  have "den \<le> (n div den) * den" using q1 by simp
  with split rem have "n < 2 * ((n div den) * den)" by linarith
  also have "\<dots> \<le> 2 * (m * den)" using m_ge by simp
  finally show ?thesis by (simp add: den_def)
qed

lemma fl_small: "n < 2 ^ 53 \<Longrightarrow> fl n = Finite n"
  by (simp add: fl_def)

lemma fl_lower:
  assumes "fl n = Finite m"
  shows "n \<le> 2 * m"
proof (cases "n < 2 ^ 53")
  case True
  with assms show ?thesis by (simp add: fl_small)
next
  case False
  obtain p e where pe: "nearest53 n 1 = (p, e)" by (cases "nearest53 n 1")
  from False have "2 ^ 53 \<le> n" by simp
  then have "n \<le> 2 * (p * 2 ^ nat e)" using pe by (rule nearest53_lower)
  moreover from assms False pe have "m = p * 2 ^ nat e"
    unfolding fl_def by (simp split: if_splits)
  ultimately show ?thesis by simp
qed

lemma fl_upper: "fl n = Finite m \<Longrightarrow> m < 2 ^ 1024"
proof (cases "n < 2 ^ 53")
  case True
  assume "fl n = Finite m"
  with True have "m = n" by (simp add: fl_def)
  moreover have "(2::nat) ^ 53 < 2 ^ 1024" by simp
  ultimately show ?thesis using True by linarith
next
  case False
  assume "fl n = Finite m"
  with False show ?thesis by (auto simp: fl_def split: prod.splits if_splits)
qed

lemma hash_loop_Infinity: "hash_loop Infinity cs = Infinity"
  by (induction cs) simp_all

lemma hash_step_grows:
  assumes "js_add (js_mul 31 (Finite a)) c = Finite b"
  shows "7 * a \<le> b"
proof -
  from assms obtain p where p: "fl (31 * a) = Finite p" and b: "fl (p + c) = Finite b"
    by (cases "fl (31 * a)") auto
  from fl_lower [OF p] fl_lower [OF b] show ?thesis by linarith
qed

lemma hash_loop_grows:
  "hash_loop (Finite a) cs = Finite r \<Longrightarrow> 7 ^ length cs * a \<le> r"
proof (induction cs arbitrary: a)
  case Nil
  then show ?case by simp
next
  case (Cons c cs)
  show ?case
  proof (cases "js_add (js_mul 31 (Finite a)) (unat c)")
    case (Finite b)
    with Cons.prems have "hash_loop (Finite b) cs = Finite r" by simp
    then have "7 ^ length cs * b \<le> r" by (rule Cons.IH)
    moreover have "7 * a \<le> b" using Finite by (rule hash_step_grows)
    then have "7 ^ length cs * (7 * a) \<le> 7 ^ length cs * b" by simp
    ultimately have "7 ^ length cs * (7 * a) \<le> r" by (rule order_trans [rotated])
    then show ?thesis by (simp add: ac_simps)
  next
    case Infinity
    with Cons.prems show ?thesis by (simp add: hash_loop_Infinity)
  qed
qed

lemma hash_loop_upper: "hash_loop (Finite a) cs = Finite r \<Longrightarrow> cs \<noteq> [] \<Longrightarrow> r < 2 ^ 1024"
proof (induction cs arbitrary: a)
  case Nil
  then show ?case by simp
next
  case (Cons c cs)
  show ?case
  proof (cases "js_add (js_mul 31 (Finite a)) (unat c)")
    case (Finite b)
    then obtain p where "fl (p + unat c) = Finite b"
      by (cases "fl (31 * a)") auto
    then have b: "b < 2 ^ 1024" by (rule fl_upper)
    from Finite Cons.prems have r: "hash_loop (Finite b) cs = Finite r" by simp
    show ?thesis
    proof (cases cs)
      case Nil
      with r b show ?thesis by simp
    next
      case (Cons d ds)
      with r Cons.IH [of b] show ?thesis by simp
    qed
  next
    case Infinity
    with Cons.prems show ?thesis by (simp add: hash_loop_Infinity)
  qed
qed

lemma pow7: "(2::nat) ^ 1024 \<le> 7 ^ 365"
  by simp

lemma hash_overflow:
  assumes c: "c \<noteq> 0" and len: "366 \<le> length cs"
  shows "hash (c # cs) = Infinity"
proof (rule ccontr)
  assume "hash (c # cs) \<noteq> Infinity"
  then obtain r where r: "hash (c # cs) = Finite r" by (cases "hash (c # cs)") auto
  have u: "unat c < 2 ^ 53"
  proof -
    have "unat c < 2 ^ 16" using unsigned_less [of c] by simp
    then show ?thesis by simp
  qed
  have first: "js_add (js_mul 31 (Finite 0)) (unat c) = Finite (unat c)"
    using u by (simp add: fl_small)
  have cs_ne: "cs \<noteq> []" using len by auto
  from r have loop: "hash_loop (Finite (unat c)) cs = Finite r"
    unfolding hash_def hash_loop.simps first .
  have c1: "1 \<le> unat c" using c by (simp add: unat_gt_0 Suc_le_eq)
  have "(2::nat) ^ 1024 \<le> 7 ^ 365" by (rule pow7)
  also have "\<dots> \<le> 7 ^ length cs" by (rule power_increasing) (use len in simp_all)
  also have "\<dots> \<le> 7 ^ length cs * unat c" using c1 by simp
  also have "\<dots> \<le> r" using loop by (rule hash_loop_grows)
  finally have "2 ^ 1024 \<le> r" .
  moreover have "r < 2 ^ 1024" using loop cs_ne by (rule hash_loop_upper)
  ultimately show False by simp
qed

subsection \<open>One bucket\<close>

lemma chain_has_iff: "chain_has c key \<longleftrightarrow> key \<in> fst ` set c"
  by (induction c key rule: chain_has.induct) auto

lemma chain_get_absent: "\<not> chain_has c key \<Longrightarrow> chain_get c key = JNull"
  by (induction c key rule: chain_get.induct) (auto split: if_splits)

lemma chain_set_added: "snd (chain_set c key v) = (\<not> chain_has c key)"
  by (induction c key v rule: chain_set.induct) (auto split: prod.splits)

lemma chain_set_keys:
  "map fst (fst (chain_set c key v)) = (if chain_has c key then map fst c else map fst c @ [key])"
  by (induction c key v rule: chain_set.induct) (auto split: prod.splits)

lemma chain_set_get:
  "chain_get (fst (chain_set c key v)) k = (if k = key then v else chain_get c k)"
  by (induction c key v rule: chain_set.induct) (auto split: prod.splits)

lemma chain_set_has:
  "chain_has (fst (chain_set c key v)) k = (k = key \<or> chain_has c k)"
  by (induction c key v rule: chain_set.induct) (auto split: prod.splits)

lemma chain_set_length:
  "length (fst (chain_set c key v)) = (if chain_has c key then length c else length c + 1)"
  by (induction c key v rule: chain_set.induct) (auto split: prod.splits)

lemma chain_set_distinct:
  "distinct (map fst c) \<Longrightarrow> distinct (map fst (fst (chain_set c key v)))"
  by (simp add: chain_set_keys chain_has_iff)

lemma chain_remove_found: "snd (chain_remove c key) = chain_has c key"
  by (induction c key rule: chain_remove.induct) (auto split: prod.splits)

lemma chain_remove_keys: "map fst (fst (chain_remove c key)) = remove1 key (map fst c)"
  by (induction c key rule: chain_remove.induct) (auto split: prod.splits)

lemma chain_remove_has:
  "distinct (map fst c) \<Longrightarrow>
     chain_has (fst (chain_remove c key)) k = (k \<noteq> key \<and> chain_has c k)"
  by (auto simp: chain_has_iff chain_remove_keys simp flip: set_map)

lemma chain_remove_get:
  "k \<noteq> key \<Longrightarrow> chain_get (fst (chain_remove c key)) k = chain_get c k"
  by (induction c key rule: chain_remove.induct) (auto split: prod.splits)

lemma chain_remove_length:
  "length (fst (chain_remove c key)) = (if chain_has c key then length c - 1 else length c)"
proof -
  have "length (fst (chain_remove c key)) = length (map fst (fst (chain_remove c key)))"
    by simp
  also have "\<dots> = length (remove1 key (map fst c))"
    by (simp only: chain_remove_keys)
  finally show ?thesis
    by (simp add: length_remove1 chain_has_iff)
qed

lemma chain_remove_absent: "\<not> chain_has c key \<Longrightarrow> chain_remove c key = (c, False)"
  by (induction c key rule: chain_remove.induct) (auto split: prod.splits)

lemma chain_remove_distinct:
  "distinct (map fst c) \<Longrightarrow> distinct (map fst (fst (chain_remove c key)))"
  by (simp add: chain_remove_keys)

subsection \<open>Map operations that do not resize\<close>

lemma m_put_eq:
  "m_put s key v =
     (s\<lparr>m_storage := (m_storage s)(m_index s key := fst (chain_set (m_storage s (m_index s key)) key v)),
        m_size := (if chain_has (m_storage s (m_index s key)) key then m_size s else m_size s + 1)\<rparr>,
      \<not> chain_has (m_storage s (m_index s key)) key)"
  using chain_set_added [of "m_storage s (m_index s key)" key v]
  by (auto simp: m_put_def Let_def split: prod.splits)

lemma m_index_cong: "m_capacity s' = m_capacity s \<Longrightarrow> m_index s' key = m_index s key"
  by (simp add: m_index_def)

lemma m_set_present:
  assumes "m_has s key"
  shows "m_set s key v =
     Inr (s\<lparr>m_storage := (m_storage s)(m_index s key := fst (chain_set (m_storage s (m_index s key)) key v))\<rparr>)"
  using assms by (simp add: m_set.simps m_put_eq m_has_def)

lemma m_remove_eq:
  "m_remove s key =
     (if m_has s key
      then (s\<lparr>m_storage := (m_storage s)(m_index s key := fst (chain_remove (m_storage s (m_index s key)) key)),
              m_size := m_size s - 1\<rparr>, True)
      else (s, False))"
  using chain_remove_found [of "m_storage s (m_index s key)" key]
  by (auto simp: m_remove_def m_has_def Let_def split: prod.splits)

subsection \<open>Invariants through set, resize and the rehash loop\<close>

lemma m_set_invariant:
  fixes I I' :: "hashmap \<Rightarrow> bool"
  assumes keep: "\<And>s key v s1. I s \<Longrightarrow> m_put s key v = (s1, False) \<Longrightarrow> I s1"
    and grow: "\<And>s key v s1. I s \<Longrightarrow> m_put s key v = (s1, True) \<Longrightarrow> I' s1"
    and settle: "\<And>s. I' s \<Longrightarrow> \<not> m_shouldResize s \<Longrightarrow> I s"
    and fresh: "\<And>s. I' s \<Longrightarrow> m_shouldResize s \<Longrightarrow> valid_array_length (2 * m_capacity s)
                  \<Longrightarrow> I (m_fresh s)"
  shows "\<forall>s'. I s \<longrightarrow> m_set s key v = Inr s' \<longrightarrow> I s'"
    and "\<forall>s'. I' s \<longrightarrow> m_shouldResize s \<longrightarrow> m_resize s = Inr s' \<longrightarrow> I s'"
    and "\<forall>s'. I s \<longrightarrow> m_rehash s es = Inr s' \<longrightarrow> I s'"
proof (induction s key v and s and s es rule: m_set_m_resize_m_rehash.induct)
  case (1 s key v)
  show ?case
  proof (intro allI impI)
    fix s'
    assume inv: "I s" and res: "m_set s key v = Inr s'"
    obtain s1 added where put: "m_put s key v = (s1, added)"
      by (cases "m_put s key v")
    show "I s'"
    proof (cases added)
      case False
      with put res have "s' = s1" by (simp add: m_set.simps)
      with keep [OF inv] put False show ?thesis by simp
    next
      case True
      with grow [OF inv] put have i1: "I' s1" by simp
      show ?thesis
      proof (cases "m_shouldResize s1")
        case no: False
        with put True res have "s' = s1" by (simp add: m_set.simps)
        with settle [OF i1 no] show ?thesis by simp
      next
        case yes: True
        with put True res have "m_resize s1 = Inr s'" by (simp add: m_set.simps)
        with "1.IH" [of s1 added] put True yes i1 show ?thesis by simp
      qed
    qed
  qed
next
  case (2 s)
  show ?case
  proof (intro allI impI)
    fix s'
    assume i1: "I' s" and yes: "m_shouldResize s" and res: "m_resize s = Inr s'"
    from res have ok: "valid_array_length (2 * m_capacity s)"
      by (simp add: m_resize.simps split: if_splits)
    with res have "m_rehash (m_fresh s) (m_entries s) = Inr s'"
      by (simp add: m_resize.simps)
    with "2.IH" [OF ok] fresh [OF i1 yes ok] show "I s'" by simp
  qed
next
  case (3 s)
  show ?case by simp
next
  case (4 s key v oldEntries)
  show ?case
  proof (intro allI impI)
    fix s'
    assume inv: "I s" and res: "m_rehash s ((key, v) # oldEntries) = Inr s'"
    then obtain b where b: "m_set s key v = Inr b" and rest: "m_rehash b oldEntries = Inr s'"
      by (auto split: sum.splits)
    from "4.IH"(1) inv b have "I b" by simp
    with "4.IH"(2) [OF b] rest show "I s'" by simp
  qed
qed

lemma m_run_invariant:
  fixes I I' :: "hashmap \<Rightarrow> bool"
  assumes keep: "\<And>s key v s1. I s \<Longrightarrow> m_put s key v = (s1, False) \<Longrightarrow> I s1"
    and grow: "\<And>s key v s1. I s \<Longrightarrow> m_put s key v = (s1, True) \<Longrightarrow> I' s1"
    and settle: "\<And>s. I' s \<Longrightarrow> \<not> m_shouldResize s \<Longrightarrow> I s"
    and fresh: "\<And>s. I' s \<Longrightarrow> m_shouldResize s \<Longrightarrow> valid_array_length (2 * m_capacity s)
                  \<Longrightarrow> I (m_fresh s)"
    and remove: "\<And>s key. I s \<Longrightarrow> I (fst (m_remove s key))"
    and clear: "\<And>s s'. I s \<Longrightarrow> m_clear s = Inr s' \<Longrightarrow> I s'"
  shows "I s \<Longrightarrow> m_run s ops = Inr s' \<Longrightarrow> I s'"
proof (induction ops arbitrary: s)
  case Nil
  then show ?case by simp
next
  case (Cons c cs)
  from Cons.prems(2) obtain b where b: "m_apply s c = Inr b" and rest: "m_run b cs = Inr s'"
    by (auto split: sum.splits)
  have "I b"
  proof (cases c)
    case (Set key v)
    with b have "m_set s key v = Inr b" by simp
    moreover have "\<forall>s'. I s \<longrightarrow> m_set s key v = Inr s' \<longrightarrow> I s'"
      by (rule m_set_invariant(1) [of I I']) (fact keep grow settle fresh)+
    ultimately show ?thesis using Cons.prems(1) by blast
  next
    case (Remove key)
    with b remove [OF Cons.prems(1), of key] show ?thesis by auto
  next
    case Clear
    with b clear [OF Cons.prems(1)] show ?thesis by auto
  qed
  then show ?case using rest by (rule Cons.IH)
qed

subsection \<open>The load check\<close>

lemma js_div_num: "b \<noteq> 0 \<Longrightarrow> \<exists>q. js_div a b = QNum q"
  by (auto simp: js_div_def split: prod.splits)

lemma js_le_iff_not_gt: "b \<noteq> 0 \<Longrightarrow> js_le (js_div a b) y = (\<not> js_gt (js_div a b) y)"
  using js_div_num [of b a] by auto

lemma load_exceeded_nonpos:
  assumes "a \<le> 0" and "0 \<le> lf"
  shows "\<not> load_exceeded a b lf"
proof (cases "a = 0")
  case True
  with assms show ?thesis by (simp add: load_exceeded_def js_div_def)
next
  case False
  with assms have neg: "a < 0" by simp
  show ?thesis
  proof (cases "b = 0")
    case True
    with neg show ?thesis by (simp add: load_exceeded_def js_div_def)
  next
    case False
    obtain m e where me: "nearest53 (nat \<bar>a\<bar>) b = (m, e)"
      by (cases "nearest53 (nat \<bar>a\<bar>) b")
    define x :: rat where "x = (if 0 \<le> e then of_nat m * 2 ^ nat e else of_nat m / 2 ^ nat (- e))"
    have "0 \<le> x" by (simp add: x_def)
    moreover have "js_div a b = QNum (- x)"
      using neg False me by (simp add: js_div_def x_def)
    ultimately show ?thesis using assms(2) by (simp add: load_exceeded_def)
  qed
qed

lemma m_load_ok_not_shouldResize: "m_load_ok s \<Longrightarrow> \<not> m_shouldResize s"
proof (cases "0 \<le> m_size s")
  case True
  assume "m_load_ok s"
  with True show ?thesis by (simp add: m_load_ok_def m_shouldResize_def)
next
  case False
  assume "m_load_ok s"
  with False show ?thesis
    by (simp add: m_load_ok_def m_shouldResize_def load_exceeded_nonpos)
qed

lemma m_load_ok_keep: "m_load_ok s \<Longrightarrow> m_put s key v = (s1, False) \<Longrightarrow> m_load_ok s1"
  by (auto simp: m_put_eq m_load_ok_def)

lemma m_load_ok_grow: "m_load_ok s \<Longrightarrow> m_put s key v = (s1, True) \<Longrightarrow> m_load_pending s1"
  by (auto simp: m_put_eq m_load_ok_def m_load_pending_def)

lemma m_load_ok_settle: "m_load_pending s \<Longrightarrow> \<not> m_shouldResize s \<Longrightarrow> m_load_ok s"
proof -
  assume p: "m_load_pending s" and n: "\<not> m_shouldResize s"
  have "\<not> load_exceeded j (m_capacity s) (m_loadFactor s)" if "j \<in> {0..m_size s}" for j
  proof (cases "j = m_size s")
    case True
    with n show ?thesis by (simp add: m_shouldResize_def)
  next
    case False
    with that have "j \<in> {0..m_size s - 1}" by simp
    with p show ?thesis by (simp add: m_load_pending_def)
  qed
  with p show ?thesis by (simp add: m_load_ok_def m_load_pending_def)
qed

lemma m_load_ok_fresh: "m_load_pending s \<Longrightarrow> m_load_ok (m_fresh s)"
  by (simp add: m_load_ok_def m_load_pending_def m_fresh_def load_exceeded_nonpos)

lemma m_load_ok_remove: "m_load_ok s \<Longrightarrow> m_load_ok (fst (m_remove s key))"
  by (auto simp: m_remove_eq m_load_ok_def)

lemma m_load_ok_clear: "m_load_ok s \<Longrightarrow> m_clear s = Inr s' \<Longrightarrow> m_load_ok s'"
  by (auto simp: m_clear_def m_load_ok_def load_exceeded_nonpos split: if_splits)

lemma m_load_ok_init: "0 \<le> lf \<Longrightarrow> HashMap c lf = Inr s \<Longrightarrow> m_load_ok s"
  by (auto simp: HashMap_def m_load_ok_def load_exceeded_nonpos split: if_splits)

lemma m_run_load_ok:
  assumes "m_load_ok s" and "m_run s ops = Inr s'"
  shows "m_load_ok s'"
proof (rule m_run_invariant [of m_load_ok m_load_pending])
  show "m_load_ok s" and "m_run s ops = Inr s'" by fact+
qed (blast intro: m_load_ok_keep m_load_ok_grow m_load_ok_settle m_load_ok_fresh
      m_load_ok_remove m_load_ok_clear)+

lemma m_run_capacity: "m_run s ops = Inr s' \<Longrightarrow> m_capacity s \<le> m_capacity s'"
proof -
  assume run: "m_run s ops = Inr s'"
  define I where "I = (\<lambda>x::hashmap. m_capacity s \<le> m_capacity x)"
  have "I s'"
  proof (rule m_run_invariant [of I I _ _ s'])
    show "I s" by (simp add: I_def)
    show "m_run s ops = Inr s'" by (fact run)
  qed (auto simp: I_def m_put_eq m_fresh_def m_remove_eq m_clear_def split: if_splits)
  then show ?thesis by (simp add: I_def)
qed

lemma m_set_capacity_doubles: "m_set s key v = Inr s' \<Longrightarrow> \<exists>n. m_capacity s' = m_capacity s * 2 ^ n"
proof -
  assume res: "m_set s key v = Inr s'"
  define I where "I = (\<lambda>x::hashmap. \<exists>n. m_capacity x = m_capacity s * 2 ^ n)"
  have "\<forall>s'. I s \<longrightarrow> m_set s key v = Inr s' \<longrightarrow> I s'"
  proof (rule m_set_invariant(1) [of I I])
    fix x assume "I x"
    then obtain n where "m_capacity x = m_capacity s * 2 ^ n" by (auto simp: I_def)
    then have "m_capacity (m_fresh x) = m_capacity s * 2 ^ Suc n" by (simp add: m_fresh_def)
    then show "I (m_fresh x)" unfolding I_def by blast
  qed (auto simp: I_def m_put_eq)
  moreover have "I s" unfolding I_def by (rule exI [of _ 0]) simp
  ultimately have "I s'" using res by blast
  then show ?thesis by (simp add: I_def)
qed

lemma m_run_loadFactor: "m_run s ops = Inr s' \<Longrightarrow> m_loadFactor s' = m_loadFactor s"
proof -
  assume run: "m_run s ops = Inr s'"
  define I where "I = (\<lambda>x::hashmap. m_loadFactor x = m_loadFactor s)"
  have "I s'"
  proof (rule m_run_invariant [of I I _ _ s'])
    show "I s" by (simp add: I_def)
    show "m_run s ops = Inr s'" by (fact run)
  qed (auto simp: I_def m_put_eq m_fresh_def m_remove_eq m_clear_def split: if_splits)
  then show ?thesis by (simp add: I_def)
qed

lemma m_load_bound:
  assumes "0 < c" "0 \<le> lf" "HashMap c lf = Inr m0" "m_run m0 ops = Inr m"
  shows "js_le (js_div (m_size m) (m_capacity m)) (m_loadFactor m)"
proof -
  have "m_load_ok m0" using assms(2,3) by (rule m_load_ok_init)
  then have "m_load_ok m" using assms(4) by (rule m_run_load_ok)
  then have "\<not> m_shouldResize m" by (rule m_load_ok_not_shouldResize)
  moreover have "m_capacity m0 = c" using assms(3) by (auto simp: HashMap_def split: if_splits)
  with m_run_capacity [OF assms(4)] assms(1) have "m_capacity m \<noteq> 0" by simp
  ultimately show ?thesis
    by (simp add: js_le_iff_not_gt m_shouldResize_def load_exceeded_def)
qed

subsection \<open>The same invariants for the set\<close>

lemma s_add_invariant:
  fixes I I' :: "hashset \<Rightarrow> bool"
  assumes grow: "\<And>s key. I s \<Longrightarrow> I' (s_put s key)"
    and settle: "\<And>s. I' s \<Longrightarrow> \<not> s_shouldResize s \<Longrightarrow> I s"
    and fresh: "\<And>s. I' s \<Longrightarrow> s_shouldResize s \<Longrightarrow> valid_array_length (2 * s_capacity s)
                  \<Longrightarrow> I (s_fresh s)"
  shows "\<forall>s'. I s \<longrightarrow> s_add s key = Inr s' \<longrightarrow> I s'"
    and "\<forall>s'. I' s \<longrightarrow> s_shouldResize s \<longrightarrow> s_resize s = Inr s' \<longrightarrow> I s'"
    and "\<forall>s'. I s \<longrightarrow> s_rehash s ks = Inr s' \<longrightarrow> I s'"
proof (induction s key and s and s ks rule: s_add_s_resize_s_rehash.induct)
  case (1 s key)
  show ?case
  proof (intro allI impI)
    fix s'
    assume inv: "I s" and res: "s_add s key = Inr s'"
    have i1: "I' (s_put s key)" using inv by (rule grow)
    show "I s'"
    proof (cases "s_shouldResize (s_put s key)")
      case no: False
      with res have "s' = s_put s key" by (simp add: s_add.simps)
      with settle [OF i1 no] show ?thesis by simp
    next
      case yes: True
      with res have "s_resize (s_put s key) = Inr s'" by (simp add: s_add.simps)
      with "1.IH" [of "s_put s key"] yes i1 show ?thesis by simp
    qed
  qed
next
  case (2 s)
  show ?case
  proof (intro allI impI)
    fix s'
    assume i1: "I' s" and yes: "s_shouldResize s" and res: "s_resize s = Inr s'"
    from res have ok: "valid_array_length (2 * s_capacity s)"
      by (simp add: s_resize.simps split: if_splits)
    with res have "s_rehash (s_fresh s) (s_keys s) = Inr s'"
      by (simp add: s_resize.simps)
    with "2.IH" [OF ok] fresh [OF i1 yes ok] show "I s'" by simp
  qed
next
  case (3 s)
  show ?case by simp
next
  case (4 s key oldKeys)
  show ?case
  proof (intro allI impI)
    fix s'
    assume inv: "I s" and res: "s_rehash s (key # oldKeys) = Inr s'"
    then obtain b where b: "s_add s key = Inr b" and rest: "s_rehash b oldKeys = Inr s'"
      by (auto split: sum.splits)
    from "4.IH"(1) inv b have "I b" by simp
    with "4.IH"(2) [OF b] rest show "I s'" by simp
  qed
qed

lemma s_run_invariant:
  fixes I I' :: "hashset \<Rightarrow> bool"
  assumes grow: "\<And>s key. I s \<Longrightarrow> I' (s_put s key)"
    and settle: "\<And>s. I' s \<Longrightarrow> \<not> s_shouldResize s \<Longrightarrow> I s"
    and fresh: "\<And>s. I' s \<Longrightarrow> s_shouldResize s \<Longrightarrow> valid_array_length (2 * s_capacity s)
                  \<Longrightarrow> I (s_fresh s)"
    and remove: "\<And>s key. I s \<Longrightarrow> I (fst (s_remove s key))"
    and clear: "\<And>s s'. I s \<Longrightarrow> s_clear s = Inr s' \<Longrightarrow> I s'"
  shows "I s \<Longrightarrow> s_run s ops = Inr s' \<Longrightarrow> I s'"
proof (induction ops arbitrary: s)
  case Nil
  then show ?case by simp
next
  case (Cons c cs)
  from Cons.prems(2) obtain b where b: "s_apply s c = Inr b" and rest: "s_run b cs = Inr s'"
    by (auto split: sum.splits)
  have "I b"
  proof (cases c)
    case (Add key)
    with b have "s_add s key = Inr b" by simp
    moreover have "\<forall>s'. I s \<longrightarrow> s_add s key = Inr s' \<longrightarrow> I s'"
      by (rule s_add_invariant(1) [of I I']) (fact grow settle fresh)+
    ultimately show ?thesis using Cons.prems(1) by blast
  next
    case (SRemove key)
    with b remove [OF Cons.prems(1), of key] show ?thesis by auto
  next
    case SClear
    with b clear [OF Cons.prems(1)] show ?thesis by auto
  qed
  then show ?case using rest by (rule Cons.IH)
qed

lemma s_put_fields:
  "s_capacity (s_put s key) = s_capacity s"
  "s_loadFactor (s_put s key) = s_loadFactor s"
  "s_size (s_put s key) = s_size s \<or> s_size (s_put s key) = s_size s + 1"
  by (simp_all add: s_put_def Let_def)

lemma s_remove_fields:
  "s_capacity (fst (s_remove s key)) = s_capacity s"
  "s_loadFactor (fst (s_remove s key)) = s_loadFactor s"
  "s_size (fst (s_remove s key)) = s_size s \<or> s_size (fst (s_remove s key)) = s_size s - 1"
  by (simp_all add: s_remove_def Let_def split: option.splits)

lemma s_load_ok_not_shouldResize: "s_load_ok s \<Longrightarrow> \<not> s_shouldResize s"
proof (cases "0 \<le> s_size s")
  case True
  assume "s_load_ok s"
  with True show ?thesis by (simp add: s_load_ok_def s_shouldResize_def)
next
  case False
  assume "s_load_ok s"
  with False show ?thesis
    by (simp add: s_load_ok_def s_shouldResize_def load_exceeded_nonpos)
qed

lemma s_load_ok_grow: "s_load_ok s \<Longrightarrow> s_load_pending (s_put s key)"
  using s_put_fields(3) [of s key]
  by (auto simp: s_load_ok_def s_load_pending_def s_put_fields(1,2))

lemma s_load_ok_settle: "s_load_pending s \<Longrightarrow> \<not> s_shouldResize s \<Longrightarrow> s_load_ok s"
proof -
  assume p: "s_load_pending s" and n: "\<not> s_shouldResize s"
  have "\<not> load_exceeded j (s_capacity s) (s_loadFactor s)" if "j \<in> {0..s_size s}" for j
  proof (cases "j = s_size s")
    case True
    with n show ?thesis by (simp add: s_shouldResize_def)
  next
    case False
    with that have "j \<in> {0..s_size s - 1}" by simp
    with p show ?thesis by (simp add: s_load_pending_def)
  qed
  with p show ?thesis by (simp add: s_load_ok_def s_load_pending_def)
qed

lemma s_load_ok_fresh: "s_load_pending s \<Longrightarrow> s_load_ok (s_fresh s)"
  by (simp add: s_load_ok_def s_load_pending_def s_fresh_def load_exceeded_nonpos)

lemma s_load_ok_remove: "s_load_ok s \<Longrightarrow> s_load_ok (fst (s_remove s key))"
  using s_remove_fields(3) [of s key]
  by (auto simp: s_load_ok_def s_remove_fields(1,2))

lemma s_load_ok_clear: "s_load_ok s \<Longrightarrow> s_clear s = Inr s' \<Longrightarrow> s_load_ok s'"
  by (auto simp: s_clear_def s_load_ok_def load_exceeded_nonpos split: if_splits)

lemma s_load_ok_init: "0 \<le> lf \<Longrightarrow> HashSet c lf = Inr s \<Longrightarrow> s_load_ok s"
  by (auto simp: HashSet_def s_load_ok_def load_exceeded_nonpos split: if_splits)

lemma s_run_load_ok:
  assumes "s_load_ok s" and "s_run s ops = Inr s'"
  shows "s_load_ok s'"
proof (rule s_run_invariant [of s_load_ok s_load_pending])
  show "s_load_ok s" and "s_run s ops = Inr s'" by fact+
qed (blast intro: s_load_ok_grow s_load_ok_settle s_load_ok_fresh
      s_load_ok_remove s_load_ok_clear)+

lemma s_run_capacity: "s_run s ops = Inr s' \<Longrightarrow> s_capacity s \<le> s_capacity s'"
proof -
  assume run: "s_run s ops = Inr s'"
  define I where "I = (\<lambda>x::hashset. s_capacity s \<le> s_capacity x)"
  have "I s'"
  proof (rule s_run_invariant [of I I _ _ s'])
    show "I s" by (simp add: I_def)
    show "s_run s ops = Inr s'" by (fact run)
  qed (auto simp: I_def s_put_fields s_fresh_def s_remove_fields s_clear_def split: if_splits)
  then show ?thesis by (simp add: I_def)
qed

lemma s_add_capacity_doubles: "s_add s key = Inr s' \<Longrightarrow> \<exists>n. s_capacity s' = s_capacity s * 2 ^ n"
proof -
  assume res: "s_add s key = Inr s'"
  define I where "I = (\<lambda>x::hashset. \<exists>n. s_capacity x = s_capacity s * 2 ^ n)"
  have "\<forall>s'. I s \<longrightarrow> s_add s key = Inr s' \<longrightarrow> I s'"
  proof (rule s_add_invariant(1) [of I I])
    fix x assume "I x"
    then obtain n where "s_capacity x = s_capacity s * 2 ^ n" by (auto simp: I_def)
    then have "s_capacity (s_fresh x) = s_capacity s * 2 ^ Suc n" by (simp add: s_fresh_def)
    then show "I (s_fresh x)" unfolding I_def by blast
  qed (auto simp: I_def s_put_fields)
  moreover have "I s" unfolding I_def by (rule exI [of _ 0]) simp
  ultimately have "I s'" using res by blast
  then show ?thesis by (simp add: I_def)
qed

lemma s_load_bound:
  assumes "0 < c" "0 \<le> lf" "HashSet c lf = Inr h0" "s_run h0 ops = Inr h"
  shows "js_le (js_div (s_size h) (s_capacity h)) (s_loadFactor h)"
proof -
  have "s_load_ok h0" using assms(2,3) by (rule s_load_ok_init)
  then have "s_load_ok h" using assms(4) by (rule s_run_load_ok)
  then have "\<not> s_shouldResize h" by (rule s_load_ok_not_shouldResize)
  moreover have "s_capacity h0 = c" using assms(3) by (auto simp: HashSet_def split: if_splits)
  with s_run_capacity [OF assms(4)] assms(1) have "s_capacity h \<noteq> 0" by simp
  ultimately show ?thesis
    by (simp add: js_le_iff_not_gt s_shouldResize_def load_exceeded_def)
qed

subsection \<open>The structure of a map: keys sit in their own bucket, once, and size counts them\<close>

lemma getIndex_range: "getIndex h c = Some i \<Longrightarrow> i < c"
  by (cases h) (auto split: if_splits)

lemma m_index_range: "m_index s key = Some i \<Longrightarrow> i < m_capacity s"
  unfolding m_index_def by (rule getIndex_range)

lemma m_wf_chains_distinct: "m_wf s \<Longrightarrow> m_chains_distinct s"
  by (simp add: m_wf_def m_chains_distinct_def)

lemma length_concat_upd:
  fixes f :: "nat \<Rightarrow> 'a list"
  shows "i < n \<Longrightarrow>
    length (concat (map (f(i := c)) [0..<n])) + length (f i) =
    length (concat (map f [0..<n])) + length c"
proof (induction n)
  case 0
  then show ?case by simp
next
  case (Suc n)
  show ?case
  proof (cases "i = n")
    case True
    have "concat (map (f(n := c)) [0..<Suc n]) = concat (map f [0..<n]) @ c"
      by simp
    then have "length (concat (map (f(n := c)) [0..<Suc n])) = length (concat (map f [0..<n])) + length c"
      by (simp only: length_append)
    moreover have "length (concat (map f [0..<Suc n])) = length (concat (map f [0..<n])) + length (f n)"
      by simp
    ultimately show ?thesis unfolding True by linarith
  next
    case False
    with Suc.prems have "i < n" by simp
    from Suc.IH [OF this] False show ?thesis by simp
  qed
qed

lemma m_entries_upd_Some:
  assumes "i < m_capacity s"
  shows "length (m_entries (s\<lparr>m_storage := (m_storage s)(Some i := c), m_size := z\<rparr>))
           + length (m_storage s (Some i)) = length (m_entries s) + length c"
proof -
  have "(\<lambda>j. ((m_storage s)(Some i := c)) (Some j)) = (\<lambda>j. m_storage s (Some j))(i := c)"
    by (rule ext) simp
  then show ?thesis
    using length_concat_upd [OF assms, of "\<lambda>j. m_storage s (Some j)" c]
    by (simp add: m_entries_def)
qed

lemma m_entries_upd_None:
  "m_entries (s\<lparr>m_storage := (m_storage s)(None := c), m_size := z\<rparr>) = m_entries s"
  by (simp add: m_entries_def)

lemma m_wf_put:
  assumes "m_wf s"
  shows "m_wf (fst (m_put s key v))"
proof -
  define ix where "ix = m_index s key"
  define c where "c = fst (chain_set (m_storage s ix) key v)"
  define z where "z = (if chain_has (m_storage s ix) key then m_size s else m_size s + 1)"
  define s1 where "s1 = s\<lparr>m_storage := (m_storage s)(ix := c), m_size := z\<rparr>"
  have s1: "fst (m_put s key v) = s1"
    by (simp add: m_put_eq s1_def c_def z_def ix_def)
  have idx: "m_index s1 k = m_index s k" for k
    by (simp add: s1_def m_index_def)
  have keys_c: "fst ` set c = insert key (fst ` set (m_storage s ix))"
  proof -
    have "fst ` set c = set (map fst c)" by simp
    also have "\<dots> = insert key (fst ` set (m_storage s ix))"
      unfolding c_def chain_set_keys by (auto simp: chain_has_iff)
    finally show ?thesis .
  qed
  have len_c: "int (length c) = int (length (m_storage s ix)) + (z - m_size s)"
    by (simp add: c_def z_def chain_set_length)
  have place: "\<forall>jx. \<forall>k \<in> fst ` set (m_storage s1 jx). m_index s1 k = jx"
  proof (intro allI ballI)
    fix jx k
    assume k: "k \<in> fst ` set (m_storage s1 jx)"
    show "m_index s1 k = jx"
    proof (cases "jx = ix")
      case True
      with k have "k \<in> fst ` set c" by (simp add: s1_def)
      with keys_c have "k = key \<or> k \<in> fst ` set (m_storage s ix)" by simp
      with assms True show ?thesis by (auto simp: idx ix_def m_wf_def)
    next
      case False
      with k have "k \<in> fst ` set (m_storage s jx)" by (simp add: s1_def)
      with assms show ?thesis by (auto simp: idx m_wf_def)
    qed
  qed
  have dist: "\<forall>jx. distinct (map fst (m_storage s1 jx))"
    using assms by (simp add: s1_def m_wf_def c_def chain_set_distinct)
  have size: "m_size s1 = int (length (m_entries s1)) + int (length (m_storage s1 None))"
  proof (cases ix)
    case None
    with assms len_c show ?thesis
      by (simp add: s1_def m_entries_upd_None m_wf_def)
  next
    case (Some i)
    then have "i < m_capacity s" unfolding ix_def by (rule m_index_range)
    from m_entries_upd_Some [OF this, where c = c and z = z] Some
    have "int (length (m_entries s1)) = int (length (m_entries s)) + (z - m_size s)"
      using len_c by (simp add: s1_def)
    with assms Some show ?thesis by (simp add: s1_def m_wf_def)
  qed
  from place dist size show ?thesis unfolding s1 m_wf_def by simp
qed

lemma m_wf_fresh: "m_wf (m_fresh s)"
  by (simp add: m_wf_def m_fresh_def m_entries_def)

lemma m_wf_init: "HashMap c lf = Inr s \<Longrightarrow> m_wf s"
  by (auto simp: HashMap_def m_wf_def m_entries_def split: if_splits)

lemma m_wf_clear: "m_clear s = Inr s' \<Longrightarrow> m_wf s'"
  by (auto simp: m_clear_def m_wf_def m_entries_def split: if_splits)

lemma m_wf_remove:
  assumes "m_wf s"
  shows "m_wf (fst (m_remove s key))"
proof (cases "m_has s key")
  case False
  with assms show ?thesis by (simp add: m_remove_eq)
next
  case True
  define ix where "ix = m_index s key"
  define c where "c = fst (chain_remove (m_storage s ix) key)"
  define s1 where "s1 = s\<lparr>m_storage := (m_storage s)(ix := c), m_size := m_size s - 1\<rparr>"
  have s1: "fst (m_remove s key) = s1"
    using True by (simp add: m_remove_eq s1_def c_def ix_def)
  have idx: "m_index s1 k = m_index s k" for k
    by (simp add: s1_def m_index_def)
  have keys_c: "fst ` set c \<subseteq> fst ` set (m_storage s ix)"
  proof -
    have "fst ` set c = set (map fst c)" by simp
    also have "\<dots> \<subseteq> set (map fst (m_storage s ix))"
      unfolding c_def chain_remove_keys by (rule set_remove1_subset)
    finally show ?thesis by simp
  qed
  have pos: "0 < length (m_storage s ix)"
    using True by (auto simp: m_has_def ix_def chain_has_iff)
  have len_c: "int (length c) = int (length (m_storage s ix)) - 1"
    using True pos by (simp add: c_def chain_remove_length m_has_def ix_def Suc_le_eq)
  have place: "\<forall>jx. \<forall>k \<in> fst ` set (m_storage s1 jx). m_index s1 k = jx"
  proof (intro allI ballI)
    fix jx k
    assume k: "k \<in> fst ` set (m_storage s1 jx)"
    have "k \<in> fst ` set (m_storage s jx)"
    proof (cases "jx = ix")
      case True
      with k have "k \<in> fst ` set c" by (simp add: s1_def)
      with keys_c True show ?thesis by auto
    next
      case False
      with k show ?thesis by (simp add: s1_def)
    qed
    with assms show "m_index s1 k = jx" by (auto simp: idx m_wf_def)
  qed
  have dist: "\<forall>jx. distinct (map fst (m_storage s1 jx))"
    using assms by (simp add: s1_def m_wf_def c_def chain_remove_distinct)
  have size: "m_size s1 = int (length (m_entries s1)) + int (length (m_storage s1 None))"
  proof (cases ix)
    case None
    with assms len_c show ?thesis
      by (simp add: s1_def m_entries_upd_None m_wf_def)
  next
    case (Some i)
    then have "i < m_capacity s" unfolding ix_def by (rule m_index_range)
    from m_entries_upd_Some [OF this, where c = c and z = "m_size s - 1"] Some
    have "int (length (m_entries s1)) = int (length (m_entries s)) - 1"
      using len_c by (simp add: s1_def)
    with assms Some show ?thesis by (simp add: s1_def m_wf_def)
  qed
  from place dist size show ?thesis unfolding s1 m_wf_def by simp
qed

lemma m_wf_put_result: "m_wf s \<Longrightarrow> m_put s key v = (s1, b) \<Longrightarrow> m_wf s1"
  using m_wf_put [of s key v] by simp

lemma m_set_wf:
  assumes "m_wf s" and "m_set s key v = Inr s'"
  shows "m_wf s'"
proof -
  have "\<forall>s'. m_wf s \<longrightarrow> m_set s key v = Inr s' \<longrightarrow> m_wf s'"
    by (rule m_set_invariant(1) [of m_wf m_wf]) (blast intro: m_wf_put_result m_wf_fresh)+
  with assms show ?thesis by blast
qed

lemma m_run_wf:
  assumes "m_wf s" and "m_run s ops = Inr s'"
  shows "m_wf s'"
proof (rule m_run_invariant [of m_wf m_wf])
  show "m_wf s" and "m_run s ops = Inr s'" by fact+
qed (blast intro: m_wf_put_result m_wf_fresh m_wf_remove m_wf_clear)+

subsection \<open>Capacities stay valid array lengths\<close>

lemma m_run_valid_capacity:
  assumes "HashMap c lf = Inr m0" and "m_run m0 ops = Inr s"
  shows "valid_array_length (m_capacity s)"
proof -
  define I where "I = (\<lambda>x::hashmap. valid_array_length (m_capacity x))"
  have "I s"
  proof (rule m_run_invariant [of I I _ _ s])
    show "I m0" using assms(1) by (auto simp: I_def HashMap_def split: if_splits)
    show "m_run m0 ops = Inr s" by fact
  qed (auto simp: I_def m_put_eq m_fresh_def m_remove_eq m_clear_def split: if_splits)
  then show ?thesis by (simp add: I_def)
qed

lemma s_run_valid_capacity:
  assumes "HashSet c lf = Inr h0" and "s_run h0 ops = Inr s"
  shows "valid_array_length (s_capacity s)"
proof -
  define I where "I = (\<lambda>x::hashset. valid_array_length (s_capacity x))"
  have "I s"
  proof (rule s_run_invariant [of I I _ _ s])
    show "I h0" using assms(1) by (auto simp: I_def HashSet_def split: if_splits)
    show "s_run h0 ops = Inr s" by fact
  qed (auto simp: I_def s_put_fields s_fresh_def s_remove_fields s_clear_def split: if_splits)
  then show ?thesis by (simp add: I_def)
qed

lemma m_run_chains_distinct:
  assumes "HashMap c lf = Inr m0" and "m_run m0 ops = Inr s"
  shows "m_chains_distinct s"
  using assms by (blast intro: m_wf_chains_distinct m_run_wf m_wf_init)

subsection \<open>Insertions that do not resize\<close>

lemma m_put_has:
  "m_has (fst (m_put s key v)) k = (k = key \<or> m_has s k)"
proof (cases "m_index s k = m_index s key")
  case True
  then show ?thesis
    by (simp add: m_put_eq m_has_def m_index_def chain_set_has)
next
  case False
  then have "k \<noteq> key" by auto
  with False show ?thesis
    by (simp add: m_put_eq m_has_def m_index_def)
qed

lemma m_set_absent_no_resize:
  assumes "\<not> m_has s key"
    and "\<not> load_exceeded (m_size s + 1) (m_capacity s) (m_loadFactor s)"
  shows "m_set s key v = Inr (fst (m_put s key v))"
    and "m_size (fst (m_put s key v)) = m_size s + 1"
    and "m_capacity (fst (m_put s key v)) = m_capacity s"
    and "m_loadFactor (fst (m_put s key v)) = m_loadFactor s"
  using assms by (simp_all add: m_set.simps m_put_eq m_has_def m_shouldResize_def)

lemma m_rehash_no_resize:
  assumes "distinct (map fst kvs)"
    and "\<forall>k \<in> set (map fst kvs). \<not> m_has s k"
    and "\<forall>j \<in> {m_size s + 1 .. m_size s + int (length kvs)}.
           \<not> load_exceeded j (m_capacity s) (m_loadFactor s)"
  shows "\<exists>s'. m_rehash s kvs = Inr s' \<and> m_capacity s' = m_capacity s \<and>
           m_loadFactor s' = m_loadFactor s \<and> m_size s' = m_size s + int (length kvs) \<and>
           (\<forall>k. m_has s' k = (k \<in> set (map fst kvs) \<or> m_has s k)) \<and>
           (m_wf s \<longrightarrow> m_wf s')"
  using assms
proof (induction kvs arbitrary: s)
  case Nil
  then show ?case by simp
next
  case (Cons kv kvs)
  obtain key v where kv: "kv = (key, v)" by (cases kv)
  define s1 where "s1 = fst (m_put s key v)"
  have absent: "\<not> m_has s key" using Cons.prems(2) by (simp add: kv)
  have "m_size s + 1 \<in> {m_size s + 1 .. m_size s + int (length (kv # kvs))}" by simp
  with Cons.prems(3) have fits: "\<not> load_exceeded (m_size s + 1) (m_capacity s) (m_loadFactor s)"
    by blast
  note step = m_set_absent_no_resize [OF absent fits, of v, folded s1_def]
  have has1: "m_has s1 k = (k = key \<or> m_has s k)" for k
    unfolding s1_def by (rule m_put_has)
  have d: "distinct (map fst kvs)" using Cons.prems(1) by simp
  have a: "\<forall>k \<in> set (map fst kvs). \<not> m_has s1 k"
    using Cons.prems(1,2) by (auto simp: has1 kv)
  have l: "\<forall>j \<in> {m_size s1 + 1 .. m_size s1 + int (length kvs)}.
             \<not> load_exceeded j (m_capacity s1) (m_loadFactor s1)"
    using Cons.prems(3) by (simp add: step)
  from Cons.IH [OF d a l] obtain s' where s':
    "m_rehash s1 kvs = Inr s'" "m_capacity s' = m_capacity s1"
    "m_loadFactor s' = m_loadFactor s1" "m_size s' = m_size s1 + int (length kvs)"
    "\<forall>k. m_has s' k = (k \<in> set (map fst kvs) \<or> m_has s1 k)" "m_wf s1 \<longrightarrow> m_wf s'"
    by blast
  have "m_rehash s (kv # kvs) = Inr s'" by (simp add: kv step(1) s'(1))
  moreover have "m_wf s \<longrightarrow> m_wf s'" using s'(6) m_wf_put [of s key v] by (simp add: s1_def)
  moreover have "\<forall>k. m_has s' k = (k \<in> set (map fst (kv # kvs)) \<or> m_has s k)"
    using s'(5) by (auto simp: has1 kv)
  ultimately show ?case using s'(2,3,4) step by auto
qed

lemma m_run_sets: "m_run s (map (\<lambda>(k, v). Set k v) kvs) = m_rehash s kvs"
  by (induction kvs arbitrary: s) (auto split: sum.splits)

subsection \<open>What the traversals return\<close>

lemma concat_map_fst: "map fst (concat (map f xs)) = concat (map (\<lambda>i. map fst (f i)) xs)"
  by (induction xs) simp_all

lemma concat_map_snd: "map snd (concat (map f xs)) = concat (map (\<lambda>i. map snd (f i)) xs)"
  by (induction xs) simp_all

lemma m_keys_entries: "m_keys s = map fst (m_entries s)"
  unfolding m_keys_def m_entries_def by (rule concat_map_fst [symmetric])

lemma m_values_entries: "m_values s = map snd (m_entries s)"
  unfolding m_values_def m_entries_def by (rule concat_map_snd [symmetric])

lemma m_entries_zip: "m_entries s = zip (m_keys s) (m_values s)"
  unfolding m_keys_entries m_values_entries by (rule zip_map_fst_snd [symmetric])

lemma m_wf_entries_distinct:
  assumes "m_wf s"
  shows "distinct (map fst (m_entries s))"
proof -
  have place: "m_index s k = Some i" if "k \<in> fst ` set (m_storage s (Some i))" for k i
    using assms that unfolding m_wf_def by blast
  have "distinct (concat (map (\<lambda>i. map fst (m_storage s (Some i))) [0..<n])) \<and>
        (\<forall>k \<in> set (concat (map (\<lambda>i. map fst (m_storage s (Some i))) [0..<n])).
           \<exists>i < n. m_index s k = Some i)" for n
  proof (induction n)
    case 0
    show ?case by simp
  next
    case (Suc n)
    let ?old = "concat (map (\<lambda>i. map fst (m_storage s (Some i))) [0..<n])"
    let ?new = "map fst (m_storage s (Some n))"
    have split: "concat (map (\<lambda>i. map fst (m_storage s (Some i))) [0..<Suc n]) = ?old @ ?new"
      by simp
    have d_new: "distinct ?new" using assms by (simp add: m_wf_def)
    have idx_new: "m_index s k = Some n" if "k \<in> set ?new" for k
      using that place [of k n] by simp
    have disj: "set ?old \<inter> set ?new = {}"
    proof (rule ccontr)
      assume "set ?old \<inter> set ?new \<noteq> {}"
      then obtain k where k1: "k \<in> set ?old" and k2: "k \<in> set ?new" by blast
      from Suc k1 obtain i where "i < n" "m_index s k = Some i" by blast
      with idx_new [OF k2] show False by simp
    qed
    have d: "distinct (?old @ ?new)" using Suc d_new disj by simp
    have r: "\<exists>i < Suc n. m_index s k = Some i" if "k \<in> set (?old @ ?new)" for k
    proof (cases "k \<in> set ?new")
      case True
      then show ?thesis using idx_new by blast
    next
      case False
      with that have "k \<in> set ?old" by simp
      with Suc obtain i where "i < n" "m_index s k = Some i" by blast
      then show ?thesis using less_Suc_eq by blast
    qed
    from d r show ?case unfolding split by blast
  qed
  then show ?thesis by (simp add: m_keys_entries [symmetric] m_keys_def)
qed

lemma m_wf_entries_length: "m_wf s \<Longrightarrow> int (length (m_entries s)) \<le> m_size s"
  by (simp add: m_wf_def)

lemma m_wf_length_keys:
  "m_wf s \<Longrightarrow> m_storage s None = [] \<Longrightarrow> m_length s = int (length (m_keys s))"
  by (simp add: m_wf_def m_length_def m_keys_entries)

subsection \<open>Evaluating the concrete tables\<close>

lemma hash_a: "hash [97] = Finite 97"
  by (simp add: hash_def fl_def)

lemma hash_b: "hash [98] = Finite 98"
  by (simp add: hash_def fl_def)

lemma hash_long_key: "hash long_key = Infinity"
proof -
  have "long_key = 97 # replicate 399 97"
    unfolding long_key_def by (simp add: replicate_Suc [symmetric] del: replicate_Suc)
  moreover have "hash (97 # replicate 399 97) = Infinity"
    by (rule hash_overflow) simp_all
  ultimately show ?thesis by simp
qed

lemmas js_div_eval = js_div_def nearest53_def exponent53_def round_at_def Let_def bits.simps

lemma load_1_16: "\<not> load_exceeded 1 16 (3 / 4)"
  by (simp add: load_exceeded_def js_div_eval)

lemma HashMap_16: "HashMap 16 (3 / 4) = Inr map16"
  by (simp add: HashMap_def map16_def valid_array_length_def)

lemma HashSet_16: "HashSet 16 (3 / 4) = Inr set16"
  by (simp add: HashSet_def set16_def valid_array_length_def)

lemma m_index_16_a: "m_index map16 [97] = Some 1" "m_index map_a [97] = Some 1"
  "m_index map_null [97] = Some 1" "m_index map_a [98] = Some 2"
  by (simp_all add: m_index_def hash_a hash_b map16_def map_a_def map_null_def)

lemma m_put_map16: "m_put map16 [97] (JNum 1) = (map_a, True)"
  "m_put map16 [97] JNull = (map_null, True)"
  by (simp_all add: m_put_def m_index_16_a) (simp_all add: map16_def map_a_def map_null_def)

lemma no_resize_map_a: "\<not> m_shouldResize map_a" "\<not> m_shouldResize map_null"
  using load_1_16 by (simp_all add: m_shouldResize_def map_a_def map_null_def)

lemma m_set_map16_a: "m_set map16 [97] (JNum 1) = Inr map_a"
  by (simp add: m_set.simps m_put_map16 no_resize_map_a)

lemma m_set_map16_null: "m_set map16 [97] JNull = Inr map_null"
  by (simp add: m_set.simps m_put_map16 no_resize_map_a)

lemma s_index_16_a: "s_index set16 [97] = Some 1" "s_index set_a [97] = Some 1"
  by (simp_all add: s_index_def hash_a set16_def set_a_def)

lemma s_put_set16_a: "s_put set16 [97] = set_a"
  using s_index_16_a(1)
  by (simp add: s_put_def jsset_has_def jsset_add_def set16_def set_a_def)

lemma no_resize_set_a: "\<not> s_shouldResize set_a"
  using load_1_16 by (simp add: s_shouldResize_def set_a_def)

lemma s_add_set16_a: "s_add set16 [97] = Inr set_a"
  by (simp add: s_add.simps s_put_set16_a no_resize_set_a)

lemma m_has_map_a: "m_has map_a [97]" "\<not> m_has map_a [98]" "\<not> m_has map16 [97]"
  "m_has map_null [97]"
  by (simp_all add: m_has_def m_index_16_a) (simp_all add: map_a_def map16_def map_null_def)


text \<open>The new table after \<open>set('a', 0)\<close>: a present key whose value is falsy.\<close>

lemma m_index_zero_a: "m_index map_zero [97] = Some 1"
  by (simp add: m_index_def hash_a map_zero_def)

lemma m_set_map16_zero: "m_set map16 [97] (JNum 0) = Inr map_zero"
proof -
  have put: "m_put map16 [97] (JNum 0) = (map_zero, True)"
    by (simp add: m_put_def m_index_16_a) (simp add: map16_def map_zero_def)
  have "\<not> m_shouldResize map_zero"
    using load_1_16 by (simp add: m_shouldResize_def map_zero_def)
  with put show ?thesis by (simp add: m_set.simps)
qed

lemma m_lookup_scenarios: "m_lookup map16 [97] = None" "m_lookup map_zero [97] = Some (JNum 0)"
  "m_lookup map_null [97] = Some JNull"
  by (simp_all add: m_lookup_def m_index_16_a m_index_zero_a)
     (simp_all add: map16_def map_zero_def map_null_def)

subsection \<open>The load check at capacities 16 and 32\<close>

lemma load_16_values:
  "\<not> load_exceeded 1 16 (3 / 4)" "\<not> load_exceeded 2 16 (3 / 4)" "\<not> load_exceeded 3 16 (3 / 4)"
  "\<not> load_exceeded 4 16 (3 / 4)" "\<not> load_exceeded 5 16 (3 / 4)" "\<not> load_exceeded 6 16 (3 / 4)"
  "\<not> load_exceeded 7 16 (3 / 4)" "\<not> load_exceeded 8 16 (3 / 4)" "\<not> load_exceeded 9 16 (3 / 4)"
  "\<not> load_exceeded 10 16 (3 / 4)" "\<not> load_exceeded 11 16 (3 / 4)"
  "\<not> load_exceeded 12 16 (3 / 4)" "load_exceeded 13 16 (3 / 4)"
  by (simp_all add: load_exceeded_def js_div_eval)

lemma load_32_values:
  "\<not> load_exceeded 1 32 (3 / 4)" "\<not> load_exceeded 2 32 (3 / 4)" "\<not> load_exceeded 3 32 (3 / 4)"
  "\<not> load_exceeded 4 32 (3 / 4)" "\<not> load_exceeded 5 32 (3 / 4)" "\<not> load_exceeded 6 32 (3 / 4)"
  "\<not> load_exceeded 7 32 (3 / 4)" "\<not> load_exceeded 8 32 (3 / 4)" "\<not> load_exceeded 9 32 (3 / 4)"
  "\<not> load_exceeded 10 32 (3 / 4)" "\<not> load_exceeded 11 32 (3 / 4)"
  "\<not> load_exceeded 12 32 (3 / 4)" "\<not> load_exceeded 13 32 (3 / 4)"
  by (simp_all add: load_exceeded_def js_div_eval)

lemma load_16_range:
  assumes "j \<in> {1..12}"
  shows "\<not> load_exceeded j 16 (3 / 4)"
proof -
  from assms have "j = 1 \<or> j = 2 \<or> j = 3 \<or> j = 4 \<or> j = 5 \<or> j = 6 \<or> j = 7 \<or> j = 8 \<or> j = 9
      \<or> j = 10 \<or> j = 11 \<or> j = 12"
    by (simp, arith)
  then show ?thesis using load_16_values by (elim disjE) simp_all
qed

lemma load_32_range:
  assumes "j \<in> {1..13}"
  shows "\<not> load_exceeded j 32 (3 / 4)"
proof -
  from assms have "j = 1 \<or> j = 2 \<or> j = 3 \<or> j = 4 \<or> j = 5 \<or> j = 6 \<or> j = 7 \<or> j = 8 \<or> j = 9
      \<or> j = 10 \<or> j = 11 \<or> j = 12 \<or> j = 13"
    by (simp, arith)
  then show ?thesis using load_32_values by (elim disjE) simp_all
qed

subsection \<open>Thirteen insertions into a table of capacity 16\<close>

lemma m_rehash_append:
  "m_rehash s (xs @ ys) = (case m_rehash s xs of Inl e \<Rightarrow> Inl e | Inr s' \<Rightarrow> m_rehash s' ys)"
  by (induction xs arbitrary: s) (auto split: sum.splits)

lemma m_has_map16: "\<not> m_has map16 k"
  by (simp add: m_has_def map16_def)

lemma m_has_fresh: "\<not> m_has (m_fresh s) k"
  by (simp add: m_has_def m_fresh_def)

lemma m_wf_map16: "m_wf map16"
  using HashMap_16 by (rule m_wf_init)

lemma first_12_do_not_resize:
  assumes "distinct (map fst kvs)" and "length kvs \<le> 12"
  shows "\<exists>m. m_rehash map16 kvs = Inr m \<and> m_capacity m = 16 \<and> m_loadFactor m = 3 / 4 \<and>
           m_size m = int (length kvs) \<and> (\<forall>k. m_has m k = (k \<in> set (map fst kvs))) \<and> m_wf m"
proof -
  have "\<forall>j \<in> {m_size map16 + 1 .. m_size map16 + int (length kvs)}.
          \<not> load_exceeded j (m_capacity map16) (m_loadFactor map16)"
    using assms(2) by (auto simp: map16_def intro!: load_16_range)
  from m_rehash_no_resize [OF assms(1) _ this] m_wf_map16
  show ?thesis by (simp add: m_has_map16) (simp add: map16_def)
qed

lemma thirteenth_resizes_once:
  assumes wf: "m_wf s" and cap: "m_capacity s = 16" and lf: "m_loadFactor s = 3 / 4"
    and size: "m_size s = 12" and absent: "\<not> m_has s key"
  shows "\<exists>m. m_set s key v = Inr m \<and> m_capacity m = 32"
proof -
  define s1 where "s1 = fst (m_put s key v)"
  have put: "m_put s key v = (s1, True)"
    using absent by (simp add: s1_def m_put_eq m_has_def)
  have f1: "m_size s1 = 13" "m_capacity s1 = 16" "m_loadFactor s1 = 3 / 4"
    using absent cap lf size by (simp_all add: s1_def m_put_eq m_has_def)
  have wf1: "m_wf s1" unfolding s1_def using wf by (rule m_wf_put)
  have over: "m_shouldResize s1"
    using load_16_values(13) by (simp add: m_shouldResize_def f1)
  have fresh: "m_size (m_fresh s1) = 0" "m_capacity (m_fresh s1) = 32"
    "m_loadFactor (m_fresh s1) = 3 / 4"
    by (simp_all add: m_fresh_def f1)
  have len: "int (length (m_entries s1)) \<le> 13"
    using m_wf_entries_length [OF wf1] by (simp add: f1)
  have "\<forall>j \<in> {m_size (m_fresh s1) + 1 .. m_size (m_fresh s1) + int (length (m_entries s1))}.
          \<not> load_exceeded j (m_capacity (m_fresh s1)) (m_loadFactor (m_fresh s1))"
    using len by (auto simp: fresh intro!: load_32_range)
  from m_rehash_no_resize [OF m_wf_entries_distinct [OF wf1] _ this]
  obtain m where m: "m_rehash (m_fresh s1) (m_entries s1) = Inr m" "m_capacity m = 32"
    by (auto simp: m_has_fresh fresh)
  have "m_set s key v = Inr m"
    by (simp add: m_set.simps put over m_resize.simps f1 valid_array_length_def m)
  with m(2) show ?thesis by blast
qed

subsection \<open>Storing the long key\<close>

lemma load_half_values: "load_exceeded 1 1 (1 / 2)" "\<not> load_exceeded 1 2 (1 / 2)"
  by (simp_all add: load_exceeded_def js_div_eval)

lemma m_index_long_key: "m_index s long_key = None"
  by (simp add: m_index_def hash_long_key)

lemma s_index_long_key: "s_index s long_key = None"
  by (simp add: s_index_def hash_long_key)

lemma HashMap_1: "HashMap 1 (1 / 2) = Inr map1"
  by (simp add: HashMap_def map1_def valid_array_length_def)

lemma HashSet_1: "HashSet 1 (1 / 2) = Inr set1"
  by (simp add: HashSet_def set1_def valid_array_length_def)

lemma m_put_map1_long: "m_put map1 long_key (JNum 1) = (map1_long, True)"
  by (simp add: m_put_def m_index_long_key) (simp add: map1_def map1_long_def)

lemma m_resize_map1_long: "m_resize map1_long = Inr map2"
proof -
  have "m_entries map1_long = []" by (simp add: m_entries_def map1_long_def)
  moreover have "m_fresh map1_long = map2" by (simp add: m_fresh_def map1_long_def map2_def)
  moreover have "valid_array_length (2 * m_capacity map1_long)"
    by (simp add: valid_array_length_def map1_long_def)
  ultimately show ?thesis by (simp add: m_resize.simps)
qed

lemma m_set_map1_long: "m_set map1 long_key (JNum 1) = Inr map2"
proof -
  have "m_shouldResize map1_long"
    using load_half_values(1) by (simp add: m_shouldResize_def map1_long_def)
  then show ?thesis by (simp add: m_set.simps m_put_map1_long m_resize_map1_long)
qed

lemma m_set_map16_long: "m_set map16 long_key (JNum 1) = Inr map_long"
proof -
  have "m_put map16 long_key (JNum 1) = (map_long, True)"
    by (simp add: m_put_def m_index_long_key) (simp add: map16_def map_long_def)
  moreover have "\<not> m_shouldResize map_long"
    using load_1_16 by (simp add: m_shouldResize_def map_long_def)
  ultimately show ?thesis by (simp add: m_set.simps)
qed

lemma s_add_set1_long: "s_add set1 long_key = Inr set2"
proof -
  have put: "s_put set1 long_key = set1_long"
    using s_index_long_key [of set1]
    by (simp add: s_put_def jsset_has_def jsset_add_def set1_def set1_long_def)
  have over: "s_shouldResize set1_long"
    using load_half_values(1) by (simp add: s_shouldResize_def set1_long_def)
  have "s_keys set1_long = []" by (simp add: s_keys_def set1_long_def)
  moreover have "s_fresh set1_long = set2" by (simp add: s_fresh_def set1_long_def set2_def)
  moreover have "valid_array_length (2 * s_capacity set1_long)"
    by (simp add: valid_array_length_def set1_long_def)
  ultimately have "s_resize set1_long = Inr set2" by (simp add: s_resize.simps)
  with put over show ?thesis by (simp add: s_add.simps)
qed

lemma s_add_set2_long: "s_add set2 long_key = Inr set2_long"
proof -
  have put: "s_put set2 long_key = set2_long"
    using s_index_long_key [of set2]
    by (simp add: s_put_def jsset_has_def jsset_add_def set2_def set2_long_def)
  have "\<not> s_shouldResize set2_long"
    using load_half_values(2) by (simp add: s_shouldResize_def set2_long_def)
  with put show ?thesis by (simp add: s_add.simps)
qed

subsection \<open>The map a table represents, and what resizing keeps of it\<close>

lemma chain_get_map_of: "chain_get c key = (case map_of c key of None \<Rightarrow> JNull | Some v \<Rightarrow> v)"
  by (induction c key rule: chain_get.induct) auto

lemma chain_has_map_of: "chain_has c key = (map_of c key \<noteq> None)"
  by (induction c key rule: chain_has.induct) auto

lemma chain_set_map_of: "map_of (fst (chain_set c key v)) = (map_of c)(key \<mapsto> v)"
  by (induction c key v rule: chain_set.induct) (auto split: prod.splits)

lemma m_get_lookup: "m_get s key = (case m_lookup s key of None \<Rightarrow> JNull | Some v \<Rightarrow> v)"
  by (simp add: m_get_def m_lookup_def chain_get_map_of)

lemma m_has_lookup: "m_has s key = (m_lookup s key \<noteq> None)"
  by (simp add: m_has_def m_lookup_def chain_has_map_of)

lemma m_put_lookup: "m_lookup (fst (m_put s key v)) k = ((m_lookup s)(key \<mapsto> v)) k"
proof (cases "m_index s k = m_index s key")
  case True
  then show ?thesis
    by (simp add: m_put_eq m_lookup_def m_index_def chain_set_map_of)
next
  case False
  then have "k \<noteq> key" by auto
  with False show ?thesis
    by (simp add: m_put_eq m_lookup_def m_index_def)
qed

lemma m_lookup_fresh: "m_lookup (m_fresh s) k = None"
  by (simp add: m_lookup_def m_fresh_def)

lemma m_index_finite:
  "0 < m_capacity s \<Longrightarrow> hash k \<noteq> Infinity \<Longrightarrow> \<exists>i < m_capacity s. m_index s k = Some i"
  by (cases "hash k") (simp_all add: m_index_def)

lemma m_wf_entries_lookup:
  assumes wf: "m_wf s" and cap: "0 < m_capacity s" and fin: "hash k \<noteq> Infinity"
  shows "map_of (m_entries s) k = m_lookup s k"
proof -
  from m_index_finite [OF cap fin] obtain i where i: "i < m_capacity s" "m_index s k = Some i"
    by blast
  have elsewhere: "map_of (m_storage s (Some j)) k = None" if "j \<noteq> i" for j
  proof -
    have "k \<notin> fst ` set (m_storage s (Some j))"
    proof
      assume "k \<in> fst ` set (m_storage s (Some j))"
      with wf have "m_index s k = Some j" unfolding m_wf_def by blast
      with i(2) that show False by simp
    qed
    then show ?thesis by (simp add: map_of_eq_None_iff)
  qed
  have "map_of (concat (map (\<lambda>j. m_storage s (Some j)) [0..<n])) k =
        (if i < n then map_of (m_storage s (Some i)) k else None)" for n
  proof (induction n)
    case 0
    show ?case by simp
  next
    case (Suc n)
    show ?case
    proof (cases "n = i")
      case True
      with Suc show ?thesis by (simp add: map_add_def split: option.splits)
    next
      case False
      with Suc elsewhere [of n] show ?thesis by (auto simp: map_add_def split: option.splits)
    qed
  qed
  from this [of "m_capacity s"] i show ?thesis
    by (simp add: m_entries_def m_lookup_def)
qed

lemma map_of_rev_distinct: "distinct (map fst xs) \<Longrightarrow> map_of (rev xs) = map_of xs"
  by (subst map_of_inject_set) (simp_all add: rev_map [symmetric])

lemma m_set_capacity_pos: "0 < m_capacity s \<Longrightarrow> m_set s key v = Inr s' \<Longrightarrow> 0 < m_capacity s'"
  using m_run_capacity [of s "[Set key v]" s'] by simp

lemma m_set_lookup_all:
  "\<forall>s'. m_wf s \<longrightarrow> 0 < m_capacity s \<longrightarrow> m_set s key v = Inr s' \<longrightarrow>
     (\<forall>k. hash k \<noteq> Infinity \<longrightarrow> m_lookup s' k = ((m_lookup s)(key \<mapsto> v)) k)"
  "\<forall>s'. m_wf s \<longrightarrow> 0 < m_capacity s \<longrightarrow> m_resize s = Inr s' \<longrightarrow>
     (\<forall>k. hash k \<noteq> Infinity \<longrightarrow> m_lookup s' k = m_lookup s k)"
  "\<forall>s'. m_wf s \<longrightarrow> 0 < m_capacity s \<longrightarrow> m_rehash s es = Inr s' \<longrightarrow>
     (\<forall>k. hash k \<noteq> Infinity \<longrightarrow> m_lookup s' k = (m_lookup s ++ map_of (rev es)) k)"
proof (induction s key v and s and s es rule: m_set_m_resize_m_rehash.induct)
  case (1 s key v)
  show ?case
  proof (intro allI impI)
    fix s' k
    assume wf: "m_wf s" and cap: "0 < m_capacity s" and res: "m_set s key v = Inr s'"
      and fin: "hash k \<noteq> Infinity"
    obtain s1 added where put: "m_put s key v = (s1, added)" by (cases "m_put s key v")
    have s1: "s1 = fst (m_put s key v)" by (simp add: put)
    have l1: "m_lookup s1 k = ((m_lookup s)(key \<mapsto> v)) k"
      unfolding s1 by (rule m_put_lookup)
    show "m_lookup s' k = ((m_lookup s)(key \<mapsto> v)) k"
    proof (cases "added \<and> m_shouldResize s1")
      case False
      with put res have "s' = s1" by (auto simp: m_set.simps split: if_splits)
      with l1 show ?thesis by simp
    next
      case True
      with put res have r: "m_resize s1 = Inr s'" by (simp add: m_set.simps)
      have wf1: "m_wf s1" unfolding s1 using wf by (rule m_wf_put)
      have cap1: "0 < m_capacity s1" using cap by (simp add: s1 m_put_eq)
      from "1.IH" [of s1 added] put True wf1 cap1 r fin
      have "m_lookup s' k = m_lookup s1 k" by simp
      with l1 show ?thesis by simp
    qed
  qed
next
  case (2 s)
  show ?case
  proof (intro allI impI)
    fix s' k
    assume wf: "m_wf s" and cap: "0 < m_capacity s" and res: "m_resize s = Inr s'"
      and fin: "hash k \<noteq> Infinity"
    from res have ok: "valid_array_length (2 * m_capacity s)"
      by (simp add: m_resize.simps split: if_splits)
    with res have r: "m_rehash (m_fresh s) (m_entries s) = Inr s'"
      by (simp add: m_resize.simps)
    have "0 < m_capacity (m_fresh s)" using cap by (simp add: m_fresh_def)
    with "2.IH" [OF ok] m_wf_fresh [of s] r fin
    have "m_lookup s' k = (m_lookup (m_fresh s) ++ map_of (rev (m_entries s))) k" by simp
    also have "\<dots> = map_of (rev (m_entries s)) k"
      by (simp add: map_add_def m_lookup_fresh split: option.splits)
    also have "\<dots> = map_of (m_entries s) k"
      using m_wf_entries_distinct [OF wf] by (simp add: map_of_rev_distinct)
    also have "\<dots> = m_lookup s k"
      using wf cap fin by (rule m_wf_entries_lookup)
    finally show "m_lookup s' k = m_lookup s k" .
  qed
next
  case (3 s)
  show ?case by simp
next
  case (4 s key v oldEntries)
  show ?case
  proof (intro allI impI)
    fix s' k
    assume wf: "m_wf s" and cap: "0 < m_capacity s"
      and res: "m_rehash s ((key, v) # oldEntries) = Inr s'" and fin: "hash k \<noteq> Infinity"
    from res obtain b where b: "m_set s key v = Inr b" and rest: "m_rehash b oldEntries = Inr s'"
      by (auto split: sum.splits)
    have wfb: "m_wf b" using wf b by (rule m_set_wf)
    have capb: "0 < m_capacity b" using cap b by (rule m_set_capacity_pos)
    from "4.IH"(1) wf cap b fin have lb: "m_lookup b k = ((m_lookup s)(key \<mapsto> v)) k" by simp
    from "4.IH"(2) [OF b] wfb capb rest fin
    have "m_lookup s' k = (m_lookup b ++ map_of (rev oldEntries)) k" by simp
    also have "\<dots> = (m_lookup s ++ map_of (rev ((key, v) # oldEntries))) k"
      using lb by (simp add: map_add_def split: option.splits)
    finally show "m_lookup s' k = (m_lookup s ++ map_of (rev ((key, v) # oldEntries))) k" .
  qed
qed

lemma m_run_capacity_pos:
  assumes "0 < c" and "HashMap c lf = Inr m0" and "m_run m0 ops = Inr s"
  shows "0 < m_capacity s"
proof -
  have "m_capacity m0 = c" using assms(2) by (auto simp: HashMap_def split: if_splits)
  with m_run_capacity [OF assms(3)] assms(1) show ?thesis by simp
qed

lemma round_trip_finite_hash:
  assumes "0 < c" and "HashMap c lf = Inr m0" and "m_run m0 ops = Inr s"
    and "hash key \<noteq> Infinity" and "m_set s key v = Inr s'"
  shows "m_get s' key = v \<and> m_has s' key \<and>
         (\<forall>k. k \<noteq> key \<and> hash k \<noteq> Infinity \<longrightarrow> m_get s' k = m_get s k \<and> m_has s' k = m_has s k)"
proof -
  have wf: "m_wf s" using m_wf_init [OF assms(2)] assms(3) by (rule m_run_wf)
  have cap: "0 < m_capacity s" using assms(1,2,3) by (rule m_run_capacity_pos)
  have "m_lookup s' k = ((m_lookup s)(key \<mapsto> v)) k" if "hash k \<noteq> Infinity" for k
    using m_set_lookup_all(1) [of s key v] wf cap assms(5) that by blast
  with assms(4) show ?thesis by (simp add: m_get_lookup m_has_lookup)
qed

subsection \<open>Keys of ordinary length have a finite hash\<close>

lemma round_at_le: "0 \<le> e \<Longrightarrow> round_at n 1 e \<le> n div 2 ^ nat e + 1"
  by (simp add: round_at_def Let_def)

lemma nearest53_upper:
  assumes big: "2 ^ 53 \<le> n" and eq: "nearest53 n 1 = (m, e)"
  shows "m * 2 ^ nat e \<le> 2 * n"
proof -
  have n0: "n \<noteq> 0" using big by auto
  from eq have e: "e = exponent53 n 1" and m: "m = round_at n 1 e"
    by (auto simp: nearest53_def Let_def)
  have e_nonneg: "0 \<le> e" and e_le: "nat e \<le> bits n - 1"
    using exponent53_range [OF big] by (simp_all add: e)
  define den where "den = (2::nat) ^ nat e"
  have "den \<le> 2 ^ (bits n - 1)" unfolding den_def using e_le by (simp add: power_increasing)
  also have "\<dots> \<le> n" using n0 by (rule bits_lower)
  finally have den_le: "den \<le> n" .
  have den_pos: "0 < den" by (simp add: den_def)
  have q1: "1 \<le> n div den" using den_le den_pos by (simp add: div_greater_zero_iff Suc_le_eq)
  have "m \<le> n div den + 1" unfolding m den_def using e_nonneg by (rule round_at_le)
  also have "\<dots> \<le> 2 * (n div den)" using q1 by simp
  finally have "m * den \<le> 2 * (n div den) * den" by simp
  also have "\<dots> \<le> 2 * n" by (simp add: mult.assoc)
  finally show ?thesis by (simp add: den_def)
qed

lemma fl_finite:
  assumes "n < 2 ^ 1023"
  shows "\<exists>m. fl n = Finite m \<and> m \<le> 2 * n"
proof (cases "n < 2 ^ 53")
  case True
  then show ?thesis by (simp add: fl_small)
next
  case False
  obtain p e where pe: "nearest53 n 1 = (p, e)" by (cases "nearest53 n 1")
  from False have "2 ^ 53 \<le> n" by simp
  then have le: "p * 2 ^ nat e \<le> 2 * n" using pe by (rule nearest53_upper)
  have "2 * n < 2 * 2 ^ 1023" using assms by simp
  also have "\<dots> = (2::nat) ^ 1024" by simp
  finally have "p * 2 ^ nat e < 2 ^ 1024" using le by simp
  then have "fl n = Finite (p * 2 ^ nat e)"
    using False pe unfolding fl_def by (simp only: if_False prod.case) simp
  with le show ?thesis by simp
qed

lemma hash_step_bounded:
  assumes h: "h < 2 ^ (17 + 7 * k)" and k: "k < 143" and c: "c < 2 ^ 16"
  shows "\<exists>h'. js_add (js_mul 31 (Finite h)) c = Finite h' \<and> h' < 2 ^ (17 + 7 * Suc k)"
proof -
  define B :: nat where "B = 2 ^ (17 + 7 * k)"
  have B16: "(2::nat) ^ 16 \<le> B" unfolding B_def by (rule power_increasing) simp_all
  have Bmax: "128 * B \<le> 2 ^ 1018"
  proof -
    have "128 * B = 2 ^ (17 + 7 * Suc k)" by (simp add: B_def power_add)
    also have "\<dots> \<le> 2 ^ 1018" by (rule power_increasing) (use k in simp_all)
    finally show ?thesis .
  qed
  have small: "(2::nat) ^ 1018 < 2 ^ 1023" by simp
  have hB: "h < B" using h by (simp add: B_def)
  have "31 * h < 2 ^ 1023" using hB Bmax small by linarith
  from fl_finite [OF this] obtain p where p: "fl (31 * h) = Finite p" "p \<le> 2 * (31 * h)"
    by blast
  have "p + c < 128 * B" using p(2) hB c B16 by simp
  then have "p + c < 2 ^ 1023" using Bmax small by linarith
  from fl_finite [OF this] obtain h' where h': "fl (p + c) = Finite h'" "h' \<le> 2 * (p + c)"
    by blast
  have "p \<le> 62 * h" using p(2) by simp
  then have "h' \<le> 124 * h + 2 * c" using h'(2) by simp
  moreover have "c < B" using c B16 by simp
  ultimately have "h' < 128 * B" using hB by simp
  also have "128 * B = 2 ^ (17 + 7 * Suc k)" by (simp add: B_def power_add)
  finally show ?thesis using p(1) h'(1) by simp
qed

lemma hash_loop_bounded:
  assumes "h < 2 ^ (17 + 7 * k)" and "k + length cs \<le> 143"
  shows "\<exists>h'. hash_loop (Finite h) cs = Finite h'"
  using assms
proof (induction cs arbitrary: h k)
  case Nil
  then show ?case by simp
next
  case (Cons c cs)
  have "unat c < 2 ^ 16" using unsigned_less [of c] by simp
  moreover have "k < 143" using Cons.prems(2) by simp
  ultimately obtain h' where h': "js_add (js_mul 31 (Finite h)) (unat c) = Finite h'"
    "h' < 2 ^ (17 + 7 * Suc k)"
    using hash_step_bounded [OF Cons.prems(1)] by blast
  have "Suc k + length cs \<le> 143" using Cons.prems(2) by simp
  from Cons.IH [OF h'(2) this] show ?case unfolding hash_loop.simps h'(1) .
qed

lemma hash_finite: "length key \<le> 143 \<Longrightarrow> hash key \<noteq> Infinity"
  using hash_loop_bounded [of 0 0 key] by (auto simp: hash_def)

lemma getIndex_in_range:
  "0 < capacity \<Longrightarrow> hash key \<noteq> Infinity \<Longrightarrow>
     \<exists>i < capacity. getIndex (hash key) capacity = Some i"
  by (cases "hash key") simp_all

subsection \<open>Tables whose keys all have a finite hash\<close>

lemma m_index_None_iff: "0 < m_capacity s \<Longrightarrow> (m_index s k = None) = (hash k = Infinity)"
  by (cases "hash k") (simp_all add: m_index_def)

lemma m_wf_entries_finite:
  assumes "m_wf s" and "k \<in> fst ` set (m_entries s)"
  shows "hash k \<noteq> Infinity"
proof -
  from assms(2) obtain i where "k \<in> fst ` set (m_storage s (Some i))"
    by (auto simp: m_entries_def)
  with assms(1) have "m_index s k = Some i" unfolding m_wf_def by blast
  then show ?thesis by (auto simp: m_index_def)
qed

lemma m_put_NaN_bucket:
  "0 < m_capacity s \<Longrightarrow> hash key \<noteq> Infinity \<Longrightarrow>
     m_storage (fst (m_put s key v)) None = m_storage s None"
  using m_index_None_iff [of s key] by (auto simp: m_put_eq)

lemma m_set_NaN_bucket_all:
  "\<forall>s'. m_wf s \<longrightarrow> 0 < m_capacity s \<longrightarrow> m_storage s None = [] \<longrightarrow> hash key \<noteq> Infinity \<longrightarrow>
     m_set s key v = Inr s' \<longrightarrow> m_storage s' None = []"
  "\<forall>s'. m_wf s \<longrightarrow> 0 < m_capacity s \<longrightarrow> m_resize s = Inr s' \<longrightarrow> m_storage s' None = []"
  "\<forall>s'. 0 < m_capacity s \<longrightarrow> m_wf s \<longrightarrow> m_storage s None = [] \<longrightarrow>
     (\<forall>k \<in> fst ` set es. hash k \<noteq> Infinity) \<longrightarrow>
     m_rehash s es = Inr s' \<longrightarrow> m_storage s' None = []"
proof (induction s key v and s and s es rule: m_set_m_resize_m_rehash.induct)
  case (1 s key v)
  show ?case
  proof (intro allI impI)
    fix s'
    assume wf: "m_wf s" and cap: "0 < m_capacity s" and nan: "m_storage s None = []"
      and fin: "hash key \<noteq> Infinity" and res: "m_set s key v = Inr s'"
    obtain s1 added where put: "m_put s key v = (s1, added)" by (cases "m_put s key v")
    have s1: "s1 = fst (m_put s key v)" by (simp add: put)
    have n1: "m_storage s1 None = []"
      unfolding s1 using cap fin nan by (simp add: m_put_NaN_bucket)
    show "m_storage s' None = []"
    proof (cases "added \<and> m_shouldResize s1")
      case False
      with put res have "s' = s1" by (auto simp: m_set.simps split: if_splits)
      with n1 show ?thesis by simp
    next
      case True
      with put res have r: "m_resize s1 = Inr s'" by (simp add: m_set.simps)
      have wf1: "m_wf s1" unfolding s1 using wf by (rule m_wf_put)
      have cap1: "0 < m_capacity s1" using cap by (simp add: s1 m_put_eq)
      from "1.IH" [of s1 added] put True wf1 cap1 r show ?thesis by simp
    qed
  qed
next
  case (2 s)
  show ?case
  proof (intro allI impI)
    fix s'
    assume wf: "m_wf s" and cap: "0 < m_capacity s" and res: "m_resize s = Inr s'"
    from res have ok: "valid_array_length (2 * m_capacity s)"
      by (simp add: m_resize.simps split: if_splits)
    with res have r: "m_rehash (m_fresh s) (m_entries s) = Inr s'"
      by (simp add: m_resize.simps)
    have "0 < m_capacity (m_fresh s)" using cap by (simp add: m_fresh_def)
    moreover have "m_storage (m_fresh s) None = []" by (simp add: m_fresh_def)
    moreover have "\<forall>k \<in> fst ` set (m_entries s). hash k \<noteq> Infinity"
    proof
      fix k assume "k \<in> fst ` set (m_entries s)"
      with wf show "hash k \<noteq> Infinity" by (rule m_wf_entries_finite)
    qed
    ultimately show "m_storage s' None = []"
      using "2.IH" [OF ok] m_wf_fresh [of s] r by blast
  qed
next
  case (3 s)
  show ?case by simp
next
  case (4 s key v oldEntries)
  show ?case
  proof (intro allI impI)
    fix s'
    assume cap: "0 < m_capacity s" and wf: "m_wf s" and nan: "m_storage s None = []"
      and fin: "\<forall>k \<in> fst ` set ((key, v) # oldEntries). hash k \<noteq> Infinity"
      and res: "m_rehash s ((key, v) # oldEntries) = Inr s'"
    from res obtain b where b: "m_set s key v = Inr b" and rest: "m_rehash b oldEntries = Inr s'"
      by (auto split: sum.splits)
    have wfb: "m_wf b" using wf b by (rule m_set_wf)
    have capb: "0 < m_capacity b" using cap b by (rule m_set_capacity_pos)
    from fin have "hash key \<noteq> Infinity" by simp
    with "4.IH"(1) wf cap nan b have nb: "m_storage b None = []" by blast
    from fin have "\<forall>k \<in> fst ` set oldEntries. hash k \<noteq> Infinity" by simp
    with "4.IH"(2) [OF b] capb wfb nb rest show "m_storage s' None = []" by blast
  qed
qed

lemma m_wf_has_keys:
  assumes "m_wf s" and "0 < m_capacity s" and "m_storage s None = []"
  shows "m_has s k = (k \<in> set (m_keys s))"
proof (cases "hash k = Infinity")
  case True
  with assms(2) have "m_index s k = None" by (simp add: m_index_None_iff)
  with assms(3) have "\<not> m_has s k" by (simp add: m_has_def)
  moreover have "k \<notin> set (m_keys s)"
    using m_wf_entries_finite [OF assms(1), of k] True by (auto simp: m_keys_entries)
  ultimately show ?thesis by simp
next
  case False
  have "m_has s k = (map_of (m_entries s) k \<noteq> None)"
    using m_wf_entries_lookup [OF assms(1,2) False] by (simp add: m_has_lookup)
  also have "\<dots> = (k \<in> fst ` set (m_entries s))"
    by (simp add: map_of_eq_None_iff)
  finally show ?thesis by (simp add: m_keys_entries)
qed

lemma m_wf_length_card:
  assumes "m_wf s" and "0 < m_capacity s" and "m_storage s None = []"
  shows "m_length s = int (card {k. m_has s k})"
proof -
  have "{k. m_has s k} = set (m_keys s)"
    using m_wf_has_keys [OF assms] by blast
  moreover have "distinct (m_keys s)"
    using m_wf_entries_distinct [OF assms(1)] by (simp add: m_keys_entries)
  ultimately have "card {k. m_has s k} = length (m_keys s)"
    by (simp add: distinct_card)
  with m_wf_length_keys [OF assms(1,3)] show ?thesis by simp
qed

lemma m_has_finite_keys: "finite {k. m_has s k}" if "m_wf s" "0 < m_capacity s" "m_storage s None = []"
proof -
  have "{k. m_has s k} = set (m_keys s)"
    using m_wf_has_keys [OF that] by blast
  then show ?thesis by simp
qed

text \<open>
  In a table with no node under \<open>storage[NaN]\<close>, storing a key whose hash is finite gives the
  round trip, leaves the other keys as they were, and raises \<open>length()\<close> by exactly 1 when
  the key is new and by 0 when it is not, whether or not the call resizes.
\<close>

lemma m_set_finite_hash:
  assumes wf: "m_wf s" and cap: "0 < m_capacity s" and nan: "m_storage s None = []"
    and fin: "hash key \<noteq> Infinity" and res: "m_set s key v = Inr s'"
  shows "m_get s' key = v" and "\<forall>k. m_has s' k = (k = key \<or> m_has s k)"
    and "m_length s' = m_length s + (if m_has s key then 0 else 1)"
    and "m_storage s' None = []"
proof -
  have wf': "m_wf s'" using wf res by (rule m_set_wf)
  have cap': "0 < m_capacity s'" using cap res by (rule m_set_capacity_pos)
  show nan': "m_storage s' None = []"
    using m_set_NaN_bucket_all(1) [of s key v] wf cap nan fin res by blast
  have look: "m_lookup s' k = ((m_lookup s)(key \<mapsto> v)) k" if "hash k \<noteq> Infinity" for k
    using m_set_lookup_all(1) [of s key v] wf cap res that by blast
  from look [OF fin] show "m_get s' key = v" by (simp add: m_get_lookup)
  show has': "\<forall>k. m_has s' k = (k = key \<or> m_has s k)"
  proof
    fix k
    show "m_has s' k = (k = key \<or> m_has s k)"
    proof (cases "hash k = Infinity")
      case True
      then have "m_index s k = None" "m_index s' k = None"
        using cap cap' by (simp_all add: m_index_None_iff)
      with nan nan' True fin show ?thesis by (auto simp: m_has_def)
    next
      case False
      from look [OF False] show ?thesis by (simp add: m_has_lookup)
    qed
  qed
  have fin_keys: "finite {k. m_has s k}" using wf cap nan by (rule m_has_finite_keys)
  have "{k. m_has s' k} = insert key {k. m_has s k}" using has' by auto
  then have "card {k. m_has s' k} = (if m_has s key then card {k. m_has s k} else card {k. m_has s k} + 1)"
    using fin_keys by (simp add: insert_absorb)
  then show "m_length s' = m_length s + (if m_has s key then 0 else 1)"
    using m_wf_length_card [OF wf cap nan] m_wf_length_card [OF wf' cap' nan'] by simp
qed

lemma m_remove_NaN_bucket:
  "m_storage s None = [] \<Longrightarrow> m_storage (fst (m_remove s key)) None = []"
  by (cases "m_index s key") (auto simp: m_remove_eq m_has_def)

lemma m_run_finite_keys:
  assumes "m_wf s" and "0 < m_capacity s" and "m_storage s None = []"
    and "\<forall>c \<in> set ops. finite_key_op c" and "m_run s ops = Inr s'"
  shows "m_wf s' \<and> 0 < m_capacity s' \<and> m_storage s' None = []"
  using assms
proof (induction ops arbitrary: s)
  case Nil
  then show ?case by simp
next
  case (Cons c cs)
  from Cons.prems(5) obtain b where b: "m_apply s c = Inr b" and rest: "m_run b cs = Inr s'"
    by (auto split: sum.splits)
  have wfb: "m_wf b" using Cons.prems(1) m_run_wf [of s "[c]" b] b by simp
  have capb: "0 < m_capacity b" using Cons.prems(2) m_run_capacity [of s "[c]" b] b by simp
  have nanb: "m_storage b None = []"
  proof (cases c)
    case (Set key v)
    with Cons.prems(4) have "hash key \<noteq> Infinity" by simp
    moreover from Set b have "m_set s key v = Inr b" by simp
    ultimately show ?thesis
      using m_set_finite_hash(4) [OF Cons.prems(1,2,3)] by blast
  next
    case (Remove key)
    with b Cons.prems(3) show ?thesis by (auto simp: m_remove_NaN_bucket)
  next
    case Clear
    with b show ?thesis by (auto simp: m_clear_def split: if_splits)
  qed
  from Cons.prems(4) have "\<forall>c \<in> set cs. finite_key_op c" by simp
  from Cons.IH [OF wfb capb nanb this rest] show ?case .
qed

text \<open>
  For a program that stores only keys with a finite hash (all keys of at most 143 code units
  are such), the three traversals have the length \<open>length()\<close> reports and \<open>entries()\<close> pairs
  \<open>keys()\<close> with \<open>values()\<close> position by position.
\<close>

lemma traversal_consistent_finite_hash:
  assumes "0 < c" and "HashMap c lf = Inr m0" and "m_run m0 ops = Inr s"
    and "\<forall>c \<in> set ops. finite_key_op c"
  shows "m_entries s = zip (m_keys s) (m_values s) \<and>
         int (length (m_keys s)) = m_length s \<and> int (length (m_values s)) = m_length s \<and>
         int (length (m_entries s)) = m_length s"
proof -
  have m0: "m_wf m0" "0 < m_capacity m0" "m_storage m0 None = []"
    using assms(1,2) by (auto simp: m_wf_init HashMap_def split: if_splits)
  from m_run_finite_keys [OF m0 assms(4,3)]
  have "m_wf s" "m_storage s None = []" by simp_all
  then have l: "m_length s = int (length (m_keys s))" by (rule m_wf_length_keys)
  have k: "length (m_entries s) = length (m_keys s)"
    by (simp only: m_keys_entries length_map)
  have v: "length (m_values s) = length (m_keys s)"
    by (simp only: m_keys_entries m_values_entries length_map)
  show ?thesis
  proof (intro conjI)
    show "m_entries s = zip (m_keys s) (m_values s)" by (rule m_entries_zip)
    show "int (length (m_keys s)) = m_length s" by (simp only: l)
    show "int (length (m_values s)) = m_length s" by (simp only: l v)
    show "int (length (m_entries s)) = m_length s" by (simp only: l k)
  qed
qed

subsection \<open>The structure of a set\<close>

lemma s_keys_bucket: "s_keys s = concat (map (\<lambda>i. s_bucket s (Some i)) [0..<s_capacity s])"
  by (simp add: s_keys_def s_bucket_def)

lemma s_has_bucket: "s_has s key = (key \<in> set (s_bucket s (s_index s key)))"
  by (simp add: s_has_def s_bucket_def jsset_has_def split: option.splits)

lemma s_index_range: "s_index s key = Some i \<Longrightarrow> i < s_capacity s"
  unfolding s_index_def by (rule getIndex_range)

lemma s_put_bucket:
  "s_bucket (s_put s key) ix =
     (if ix = s_index s key then jsset_add (s_bucket s ix) key else s_bucket s ix)"
  by (auto simp: s_put_def s_bucket_def Let_def jsset_has_def jsset_add_def split: option.splits)

lemma s_put_size:
  "s_size (s_put s key) = (if s_has s key then s_size s else s_size s + 1)"
  by (auto simp: s_put_def s_has_def Let_def jsset_has_def split: option.splits)

lemma s_put_index: "s_index (s_put s key) k = s_index s k"
  by (simp add: s_index_def s_put_fields)

lemma s_wf_place: "s_wf s \<Longrightarrow> k \<in> set (s_bucket s ix) \<Longrightarrow> s_index s k = ix"
  unfolding s_wf_def by blast

lemma s_wf_distinct: "s_wf s \<Longrightarrow> distinct (s_bucket s ix)"
  unfolding s_wf_def by blast

lemma s_keys_length_upd:
  assumes "s_capacity s' = s_capacity s"
    and "\<And>j. j \<noteq> i \<Longrightarrow> s_bucket s' (Some j) = s_bucket s (Some j)"
    and "i < s_capacity s"
  shows "length (s_keys s') + length (s_bucket s (Some i)) =
         length (s_keys s) + length (s_bucket s' (Some i))"
proof -
  have "(\<lambda>j. s_bucket s' (Some j)) = (\<lambda>j. s_bucket s (Some j))(i := s_bucket s' (Some i))"
    using assms(2) by (auto simp: fun_eq_iff)
  then show ?thesis
    using length_concat_upd [OF assms(3), of "\<lambda>j. s_bucket s (Some j)" "s_bucket s' (Some i)"]
    by (simp add: s_keys_bucket assms(1))
qed

lemma s_keys_same:
  assumes "s_capacity s' = s_capacity s"
    and "\<And>j. s_bucket s' (Some j) = s_bucket s (Some j)"
  shows "s_keys s' = s_keys s"
  by (simp add: s_keys_bucket assms)

lemma s_wf_upd:
  assumes wf: "s_wf s" and cap: "s_capacity s' = s_capacity s"
    and other: "\<And>jx. jx \<noteq> ix \<Longrightarrow> s_bucket s' jx = s_bucket s jx"
    and place: "\<And>k. k \<in> set (s_bucket s' ix) \<Longrightarrow> s_index s k = ix"
    and dist: "distinct (s_bucket s' ix)"
    and size: "s_size s' - s_size s = int (length (s_bucket s' ix)) - int (length (s_bucket s ix))"
    and ix: "ix = s_index s key"
  shows "s_wf s'"
proof -
  have idx: "s_index s' k = s_index s k" for k by (simp add: s_index_def cap)
  have p: "\<forall>jx. \<forall>k \<in> set (s_bucket s' jx). s_index s' k = jx"
  proof (intro allI ballI)
    fix jx k assume k: "k \<in> set (s_bucket s' jx)"
    show "s_index s' k = jx"
    proof (cases "jx = ix")
      case True
      with k place show ?thesis by (simp add: idx)
    next
      case False
      with k other wf show ?thesis by (auto simp: idx s_wf_def)
    qed
  qed
  have d: "\<forall>jx. distinct (s_bucket s' jx)"
  proof
    fix jx show "distinct (s_bucket s' jx)"
      using dist other [of jx] wf by (cases "jx = ix") (auto simp: s_wf_def)
  qed
  have z: "s_size s' = int (length (s_keys s')) + int (length (s_bucket s' None))"
  proof (cases ix)
    case None
    then have "s_keys s' = s_keys s" using other by (intro s_keys_same cap) simp
    with wf size None show ?thesis by (simp add: s_wf_def)
  next
    case (Some i)
    then have "i < s_capacity s" using ix s_index_range [of s key i] by simp
    from s_keys_length_upd [OF cap _ this] other Some
    have "length (s_keys s') + length (s_bucket s (Some i)) =
          length (s_keys s) + length (s_bucket s' (Some i))" by simp
    moreover have "s_bucket s' None = s_bucket s None" using other Some by simp
    ultimately show ?thesis using wf size Some by (simp add: s_wf_def)
  qed
  from p d z show ?thesis by (simp add: s_wf_def)
qed

lemma s_wf_put:
  assumes "s_wf s"
  shows "s_wf (s_put s key)"
proof (rule s_wf_upd [OF assms, where ix = "s_index s key" and key = key])
  let ?ix = "s_index s key"
  have b: "s_bucket (s_put s key) ?ix = jsset_add (s_bucket s ?ix) key"
    by (simp add: s_put_bucket)
  show "s_capacity (s_put s key) = s_capacity s" by (rule s_put_fields)
  show "s_bucket (s_put s key) jx = s_bucket s jx" if "jx \<noteq> ?ix" for jx
    using that by (simp add: s_put_bucket)
  show "s_index s k = ?ix" if "k \<in> set (s_bucket (s_put s key) ?ix)" for k
  proof (cases "k = key")
    case True
    then show ?thesis by simp
  next
    case False
    with that have "k \<in> set (s_bucket s ?ix)"
      unfolding b by (simp add: jsset_add_def split: if_splits)
    with assms show ?thesis by (rule s_wf_place)
  qed
  show "distinct (s_bucket (s_put s key) ?ix)"
    unfolding b using s_wf_distinct [OF assms, of ?ix] by (simp add: jsset_add_def)
  show "s_size (s_put s key) - s_size s =
      int (length (s_bucket (s_put s key) ?ix)) - int (length (s_bucket s ?ix))"
    unfolding b by (simp add: s_put_size s_has_bucket jsset_add_def)
  show "?ix = s_index s key" by simp
qed

lemma s_remove_eq:
  "s_remove s key =
     (if s_has s key
      then (s\<lparr>s_storage := (s_storage s)(s_index s key := Some (jsset_delete (s_bucket s (s_index s key)) key)),
              s_size := s_size s - 1\<rparr>, True)
      else (s, False))"
  by (auto simp: s_remove_def s_has_def s_bucket_def Let_def split: option.splits)

lemma s_wf_remove:
  assumes "s_wf s"
  shows "s_wf (fst (s_remove s key))"
proof (cases "s_has s key")
  case False
  with assms show ?thesis by (simp add: s_remove_eq)
next
  case True
  define s' where "s' = fst (s_remove s key)"
  have b: "s_bucket s' jx =
      (if jx = s_index s key then removeAll key (s_bucket s jx) else s_bucket s jx)" for jx
    using True by (simp add: s'_def s_remove_eq s_bucket_def jsset_delete_def)
  have d: "distinct (s_bucket s (s_index s key))" using assms by (rule s_wf_distinct)
  have mem: "key \<in> set (s_bucket s (s_index s key))" using True by (simp add: s_has_bucket)
  have len: "int (length (removeAll key (s_bucket s (s_index s key)))) =
      int (length (s_bucket s (s_index s key))) - 1"
  proof -
    have "removeAll key (s_bucket s (s_index s key)) = remove1 key (s_bucket s (s_index s key))"
      using d by (simp add: distinct_remove1_removeAll)
    moreover have "0 < length (s_bucket s (s_index s key))" using mem by (auto simp: length_pos_if_in_set)
    ultimately show ?thesis using mem by (simp add: length_remove1 Suc_le_eq)
  qed
  have "s_wf s'"
  proof (rule s_wf_upd [OF assms, where ix = "s_index s key" and key = key])
    show "s_capacity s' = s_capacity s" unfolding s'_def by (rule s_remove_fields)
    show "s_bucket s' jx = s_bucket s jx" if "jx \<noteq> s_index s key" for jx
      using that by (simp add: b)
    show "s_index s k = s_index s key" if "k \<in> set (s_bucket s' (s_index s key))" for k
    proof -
      from that have "k \<in> set (s_bucket s (s_index s key))" by (simp add: b)
      with assms show ?thesis by (rule s_wf_place)
    qed
    show "distinct (s_bucket s' (s_index s key))" using d by (simp add: b distinct_removeAll)
    show "s_size s' - s_size s =
        int (length (s_bucket s' (s_index s key))) - int (length (s_bucket s (s_index s key)))"
    proof -
      have "s_size s' = s_size s - 1" using True by (simp add: s'_def s_remove_eq)
      with len show ?thesis by (simp add: b)
    qed
    show "s_index s key = s_index s key" by simp
  qed
  then show ?thesis by (simp add: s'_def)
qed

lemma s_wf_fresh: "s_wf (s_fresh s)"
  by (simp add: s_wf_def s_fresh_def s_keys_bucket s_bucket_def)

lemma s_wf_init: "HashSet c lf = Inr s \<Longrightarrow> s_wf s"
  by (auto simp: HashSet_def s_wf_def s_keys_bucket s_bucket_def split: if_splits)

lemma s_wf_clear: "s_clear s = Inr s' \<Longrightarrow> s_wf s'"
  by (auto simp: s_clear_def s_wf_def s_keys_bucket s_bucket_def split: if_splits)

lemma s_add_wf:
  assumes "s_wf s" and "s_add s key = Inr s'"
  shows "s_wf s'"
proof -
  have "\<forall>s'. s_wf s \<longrightarrow> s_add s key = Inr s' \<longrightarrow> s_wf s'"
    by (rule s_add_invariant(1) [of s_wf s_wf]) (blast intro: s_wf_put s_wf_fresh)+
  with assms show ?thesis by blast
qed

lemma s_run_wf:
  assumes "s_wf s" and "s_run s ops = Inr s'"
  shows "s_wf s'"
proof (rule s_run_invariant [of s_wf s_wf])
  show "s_wf s" and "s_run s ops = Inr s'" by fact+
qed (blast intro: s_wf_put s_wf_fresh s_wf_remove s_wf_clear)+

subsection \<open>The keys a set holds, and what resizing keeps of them\<close>

lemma s_index_None_iff: "0 < s_capacity s \<Longrightarrow> (s_index s k = None) = (hash k = Infinity)"
  by (cases "hash k") (simp_all add: s_index_def)

lemma s_keys_mem: "k \<in> set (s_keys s) = (\<exists>i < s_capacity s. k \<in> set (s_bucket s (Some i)))"
  by (auto simp: s_keys_bucket)

lemma s_wf_keys_finite:
  assumes "s_wf s" and "k \<in> set (s_keys s)"
  shows "hash k \<noteq> Infinity"
proof -
  from assms(2) obtain i where "k \<in> set (s_bucket s (Some i))" by (auto simp: s_keys_mem)
  with assms(1) have "s_index s k = Some i" by (rule s_wf_place)
  then show ?thesis by (auto simp: s_index_def)
qed

lemma s_wf_keys_distinct:
  assumes "s_wf s"
  shows "distinct (s_keys s)"
proof -
  have "distinct (concat (map (\<lambda>i. s_bucket s (Some i)) [0..<n]))" for n
  proof (induction n)
    case 0
    show ?case by simp
  next
    case (Suc n)
    have "set (concat (map (\<lambda>i. s_bucket s (Some i)) [0..<n])) \<inter> set (s_bucket s (Some n)) = {}"
    proof (rule ccontr)
      assume "set (concat (map (\<lambda>i. s_bucket s (Some i)) [0..<n])) \<inter> set (s_bucket s (Some n)) \<noteq> {}"
      then obtain k i where "i < n" "k \<in> set (s_bucket s (Some i))" "k \<in> set (s_bucket s (Some n))"
        by auto
      with s_wf_place [OF assms, of k "Some i"] s_wf_place [OF assms, of k "Some n"]
      show False by simp
    qed
    with Suc s_wf_distinct [OF assms, of "Some n"] show ?case by simp
  qed
  then show ?thesis by (simp add: s_keys_bucket)
qed

lemma s_wf_has_keys_finite:
  assumes "s_wf s" and "0 < s_capacity s" and "hash k \<noteq> Infinity"
  shows "s_has s k = (k \<in> set (s_keys s))"
proof -
  from assms(2,3) obtain i where i: "s_index s k = Some i"
    using s_index_None_iff [of s k] by auto
  then have lt: "i < s_capacity s" by (rule s_index_range)
  show ?thesis
  proof
    assume "s_has s k"
    with i lt show "k \<in> set (s_keys s)" by (auto simp: s_has_bucket s_keys_mem)
  next
    assume "k \<in> set (s_keys s)"
    then obtain j where j: "k \<in> set (s_bucket s (Some j))" by (auto simp: s_keys_mem)
    with assms(1) have "s_index s k = Some j" by (rule s_wf_place)
    with i j show "s_has s k" by (simp add: s_has_bucket)
  qed
qed

lemma s_put_has: "s_has (s_put s key) k = (k = key \<or> s_has s k)"
  by (auto simp: s_has_bucket s_put_index s_put_bucket jsset_add_def)

lemma s_has_fresh: "\<not> s_has (s_fresh s) k"
  by (simp add: s_has_def s_fresh_def)

lemma s_add_capacity_pos: "0 < s_capacity s \<Longrightarrow> s_add s key = Inr s' \<Longrightarrow> 0 < s_capacity s'"
  using s_run_capacity [of s "[Add key]" s'] by simp

lemma s_add_has_all:
  "\<forall>s'. s_wf s \<longrightarrow> 0 < s_capacity s \<longrightarrow> s_add s key = Inr s' \<longrightarrow>
     (\<forall>k. hash k \<noteq> Infinity \<longrightarrow> s_has s' k = (k = key \<or> s_has s k))"
  "\<forall>s'. s_wf s \<longrightarrow> 0 < s_capacity s \<longrightarrow> s_resize s = Inr s' \<longrightarrow>
     (\<forall>k. hash k \<noteq> Infinity \<longrightarrow> s_has s' k = s_has s k)"
  "\<forall>s'. s_wf s \<longrightarrow> 0 < s_capacity s \<longrightarrow> s_rehash s ks = Inr s' \<longrightarrow>
     (\<forall>k. hash k \<noteq> Infinity \<longrightarrow> s_has s' k = (k \<in> set ks \<or> s_has s k))"
proof (induction s key and s and s ks rule: s_add_s_resize_s_rehash.induct)
  case (1 s key)
  show ?case
  proof (intro allI impI)
    fix s' k
    assume wf: "s_wf s" and cap: "0 < s_capacity s" and res: "s_add s key = Inr s'"
      and fin: "hash k \<noteq> Infinity"
    define s1 where "s1 = s_put s key"
    have h1: "s_has s1 k = (k = key \<or> s_has s k)" unfolding s1_def by (rule s_put_has)
    show "s_has s' k = (k = key \<or> s_has s k)"
    proof (cases "s_shouldResize s1")
      case False
      with res have "s' = s1" by (simp add: s_add.simps s1_def)
      with h1 show ?thesis by simp
    next
      case True
      with res have r: "s_resize s1 = Inr s'" by (simp add: s_add.simps s1_def)
      have wf1: "s_wf s1" unfolding s1_def using wf by (rule s_wf_put)
      have cap1: "0 < s_capacity s1" using cap by (simp add: s1_def s_put_fields)
      from "1.IH" [of s1] True wf1 cap1 r fin have "s_has s' k = s_has s1 k"
        by (simp add: s1_def)
      with h1 show ?thesis by simp
    qed
  qed
next
  case (2 s)
  show ?case
  proof (intro allI impI)
    fix s' k
    assume wf: "s_wf s" and cap: "0 < s_capacity s" and res: "s_resize s = Inr s'"
      and fin: "hash k \<noteq> Infinity"
    from res have ok: "valid_array_length (2 * s_capacity s)"
      by (simp add: s_resize.simps split: if_splits)
    with res have r: "s_rehash (s_fresh s) (s_keys s) = Inr s'"
      by (simp add: s_resize.simps)
    have "0 < s_capacity (s_fresh s)" using cap by (simp add: s_fresh_def)
    with "2.IH" [OF ok] s_wf_fresh [of s] r fin
    have "s_has s' k = (k \<in> set (s_keys s) \<or> s_has (s_fresh s) k)" by simp
    then show "s_has s' k = s_has s k"
      using s_wf_has_keys_finite [OF wf cap fin] by (simp add: s_has_fresh)
  qed
next
  case (3 s)
  show ?case by simp
next
  case (4 s key oldKeys)
  show ?case
  proof (intro allI impI)
    fix s' k
    assume wf: "s_wf s" and cap: "0 < s_capacity s"
      and res: "s_rehash s (key # oldKeys) = Inr s'" and fin: "hash k \<noteq> Infinity"
    from res obtain b where b: "s_add s key = Inr b" and rest: "s_rehash b oldKeys = Inr s'"
      by (auto split: sum.splits)
    have wfb: "s_wf b" using wf b by (rule s_add_wf)
    have capb: "0 < s_capacity b" using cap b by (rule s_add_capacity_pos)
    from "4.IH"(1) wf cap b fin have hb: "s_has b k = (k = key \<or> s_has s k)" by simp
    from "4.IH"(2) [OF b] wfb capb rest fin
    have "s_has s' k = (k \<in> set oldKeys \<or> s_has b k)" by simp
    with hb show "s_has s' k = (k \<in> set (key # oldKeys) \<or> s_has s k)" by auto
  qed
qed

lemma s_put_NaN_bucket:
  "0 < s_capacity s \<Longrightarrow> hash key \<noteq> Infinity \<Longrightarrow> s_bucket (s_put s key) None = s_bucket s None"
  using s_index_None_iff [of s key] by (auto simp: s_put_bucket)

lemma s_add_NaN_bucket_all:
  "\<forall>s'. s_wf s \<longrightarrow> 0 < s_capacity s \<longrightarrow> s_bucket s None = [] \<longrightarrow> hash key \<noteq> Infinity \<longrightarrow>
     s_add s key = Inr s' \<longrightarrow> s_bucket s' None = []"
  "\<forall>s'. s_wf s \<longrightarrow> 0 < s_capacity s \<longrightarrow> s_resize s = Inr s' \<longrightarrow> s_bucket s' None = []"
  "\<forall>s'. 0 < s_capacity s \<longrightarrow> s_wf s \<longrightarrow> s_bucket s None = [] \<longrightarrow>
     (\<forall>k \<in> set ks. hash k \<noteq> Infinity) \<longrightarrow>
     s_rehash s ks = Inr s' \<longrightarrow> s_bucket s' None = []"
proof (induction s key and s and s ks rule: s_add_s_resize_s_rehash.induct)
  case (1 s key)
  show ?case
  proof (intro allI impI)
    fix s'
    assume wf: "s_wf s" and cap: "0 < s_capacity s" and nan: "s_bucket s None = []"
      and fin: "hash key \<noteq> Infinity" and res: "s_add s key = Inr s'"
    define s1 where "s1 = s_put s key"
    have n1: "s_bucket s1 None = []"
      unfolding s1_def using cap fin nan by (simp add: s_put_NaN_bucket)
    show "s_bucket s' None = []"
    proof (cases "s_shouldResize s1")
      case False
      with res have "s' = s1" by (simp add: s_add.simps s1_def)
      with n1 show ?thesis by simp
    next
      case True
      with res have r: "s_resize s1 = Inr s'" by (simp add: s_add.simps s1_def)
      have wf1: "s_wf s1" unfolding s1_def using wf by (rule s_wf_put)
      have cap1: "0 < s_capacity s1" using cap by (simp add: s1_def s_put_fields)
      from "1.IH" [of s1] True wf1 cap1 r show ?thesis by (simp add: s1_def)
    qed
  qed
next
  case (2 s)
  show ?case
  proof (intro allI impI)
    fix s'
    assume wf: "s_wf s" and cap: "0 < s_capacity s" and res: "s_resize s = Inr s'"
    from res have ok: "valid_array_length (2 * s_capacity s)"
      by (simp add: s_resize.simps split: if_splits)
    with res have r: "s_rehash (s_fresh s) (s_keys s) = Inr s'"
      by (simp add: s_resize.simps)
    have "0 < s_capacity (s_fresh s)" using cap by (simp add: s_fresh_def)
    moreover have "s_bucket (s_fresh s) None = []" by (simp add: s_fresh_def s_bucket_def)
    moreover have "\<forall>k \<in> set (s_keys s). hash k \<noteq> Infinity"
    proof
      fix k assume "k \<in> set (s_keys s)"
      with wf show "hash k \<noteq> Infinity" by (rule s_wf_keys_finite)
    qed
    ultimately show "s_bucket s' None = []"
      using "2.IH" [OF ok] s_wf_fresh [of s] r by blast
  qed
next
  case (3 s)
  show ?case by simp
next
  case (4 s key oldKeys)
  show ?case
  proof (intro allI impI)
    fix s'
    assume cap: "0 < s_capacity s" and wf: "s_wf s" and nan: "s_bucket s None = []"
      and fin: "\<forall>k \<in> set (key # oldKeys). hash k \<noteq> Infinity"
      and res: "s_rehash s (key # oldKeys) = Inr s'"
    from res obtain b where b: "s_add s key = Inr b" and rest: "s_rehash b oldKeys = Inr s'"
      by (auto split: sum.splits)
    have wfb: "s_wf b" using wf b by (rule s_add_wf)
    have capb: "0 < s_capacity b" using cap b by (rule s_add_capacity_pos)
    from fin have "hash key \<noteq> Infinity" by simp
    with "4.IH"(1) wf cap nan b have nb: "s_bucket b None = []" by blast
    from fin have "\<forall>k \<in> set oldKeys. hash k \<noteq> Infinity" by simp
    with "4.IH"(2) [OF b] capb wfb nb rest show "s_bucket s' None = []" by blast
  qed
qed

lemma s_wf_has_keys:
  assumes "s_wf s" and "0 < s_capacity s" and "s_bucket s None = []"
  shows "s_has s k = (k \<in> set (s_keys s))"
proof (cases "hash k = Infinity")
  case True
  with assms(2) have "s_index s k = None" by (simp add: s_index_None_iff)
  with assms(3) have "\<not> s_has s k" by (simp add: s_has_bucket)
  moreover have "k \<notin> set (s_keys s)"
    using s_wf_keys_finite [OF assms(1), of k] True by auto
  ultimately show ?thesis by simp
next
  case False
  with assms(1,2) show ?thesis by (rule s_wf_has_keys_finite)
qed

lemma s_wf_length_card:
  assumes "s_wf s" and "0 < s_capacity s" and "s_bucket s None = []"
  shows "s_length s = int (card {k. s_has s k})" and "finite {k. s_has s k}"
proof -
  have eq: "{k. s_has s k} = set (s_keys s)"
    using s_wf_has_keys [OF assms] by blast
  then show "finite {k. s_has s k}" by simp
  have "card {k. s_has s k} = length (s_keys s)"
    using s_wf_keys_distinct [OF assms(1)] by (simp add: eq distinct_card)
  moreover have "s_size s = int (length (s_keys s))"
    using assms(1,3) by (simp add: s_wf_def)
  ultimately show "s_length s = int (card {k. s_has s k})" by (simp add: s_length_def)
qed

text \<open>
  In a set with nothing under \<open>storage[NaN]\<close>, adding a key whose hash is finite makes it a
  member, leaves the other keys as they were, and raises \<open>length()\<close> by exactly 1 when the
  key is new and by 0 when it is not, whether or not the call resizes.
\<close>

lemma s_add_finite_hash:
  assumes wf: "s_wf s" and cap: "0 < s_capacity s" and nan: "s_bucket s None = []"
    and fin: "hash key \<noteq> Infinity" and res: "s_add s key = Inr s'"
  shows "\<forall>k. s_has s' k = (k = key \<or> s_has s k)"
    and "s_length s' = s_length s + (if s_has s key then 0 else 1)"
    and "s_bucket s' None = []"
proof -
  have wf': "s_wf s'" using wf res by (rule s_add_wf)
  have cap': "0 < s_capacity s'" using cap res by (rule s_add_capacity_pos)
  show nan': "s_bucket s' None = []"
    using s_add_NaN_bucket_all(1) [of s key] wf cap nan fin res by blast
  have look: "s_has s' k = (k = key \<or> s_has s k)" if "hash k \<noteq> Infinity" for k
    using s_add_has_all(1) [of s key] wf cap res that by blast
  show has': "\<forall>k. s_has s' k = (k = key \<or> s_has s k)"
  proof
    fix k
    show "s_has s' k = (k = key \<or> s_has s k)"
    proof (cases "hash k = Infinity")
      case True
      then have "s_index s k = None" "s_index s' k = None"
        using cap cap' by (simp_all add: s_index_None_iff)
      with nan nan' True fin show ?thesis by (auto simp: s_has_bucket)
    next
      case False
      then show ?thesis by (rule look)
    qed
  qed
  have "{k. s_has s' k} = insert key {k. s_has s k}" using has' by auto
  then have "card {k. s_has s' k} = (if s_has s key then card {k. s_has s k} else card {k. s_has s k} + 1)"
    using s_wf_length_card(2) [OF wf cap nan] by (simp add: insert_absorb)
  then show "s_length s' = s_length s + (if s_has s key then 0 else 1)"
    using s_wf_length_card(1) [OF wf cap nan] s_wf_length_card(1) [OF wf' cap' nan'] by simp
qed

text \<open>Adding a key that the set contains changes nothing, when no resize is pending.\<close>

lemma s_put_present: "s_has s key \<Longrightarrow> s_put s key = s"
  by (auto simp: s_put_def s_has_def Let_def jsset_has_def fun_upd_idem split: option.splits)

lemma s_add_present: "s_has s key \<Longrightarrow> \<not> s_shouldResize s \<Longrightarrow> s_add s key = Inr s"
  by (simp add: s_add.simps s_put_present)

lemma s_remove_NaN_bucket:
  "s_bucket s None = [] \<Longrightarrow> s_bucket (fst (s_remove s key)) None = []"
  by (cases "s_index s key") (auto simp: s_remove_eq s_has_bucket s_bucket_def)

lemma s_run_finite_keys:
  assumes "s_wf s" and "0 < s_capacity s" and "s_bucket s None = []"
    and "\<forall>c \<in> set ops. finite_key_sop c" and "s_run s ops = Inr s'"
  shows "s_wf s' \<and> 0 < s_capacity s' \<and> s_bucket s' None = []"
  using assms
proof (induction ops arbitrary: s)
  case Nil
  then show ?case by simp
next
  case (Cons c cs)
  from Cons.prems(5) obtain b where b: "s_apply s c = Inr b" and rest: "s_run b cs = Inr s'"
    by (auto split: sum.splits)
  have wfb: "s_wf b" using Cons.prems(1) s_run_wf [of s "[c]" b] b by simp
  have capb: "0 < s_capacity b" using Cons.prems(2) s_run_capacity [of s "[c]" b] b by simp
  have nanb: "s_bucket b None = []"
  proof (cases c)
    case (Add key)
    with Cons.prems(4) have "hash key \<noteq> Infinity" by simp
    moreover from Add b have "s_add s key = Inr b" by simp
    ultimately show ?thesis
      using s_add_finite_hash(3) [OF Cons.prems(1,2,3)] by blast
  next
    case (SRemove key)
    with b Cons.prems(3) show ?thesis by (auto simp: s_remove_NaN_bucket)
  next
    case SClear
    with b show ?thesis by (auto simp: s_clear_def s_bucket_def split: if_splits)
  qed
  from Cons.prems(4) have "\<forall>c \<in> set cs. finite_key_sop c" by simp
  from Cons.IH [OF wfb capb nanb this rest] show ?case .
qed

text \<open>
  For a program on a set constructed with a positive capacity and a non-negative load factor
  that adds only keys with a finite hash: the first \<open>add\<close> of a key raises \<open>length()\<close> by
  exactly 1, and adding it again returns the same table.
\<close>

lemma add_idempotent_finite_hash:
  assumes "0 < c" and "0 \<le> lf" and "HashSet c lf = Inr h0" and "s_run h0 ops = Inr s"
    and "\<forall>c \<in> set ops. finite_key_sop c" and "hash key \<noteq> Infinity"
    and "s_add s key = Inr s'"
  shows "s_has s' key \<and> s_length s' = s_length s + (if s_has s key then 0 else 1) \<and>
         s_add s' key = Inr s'"
proof -
  have h0: "s_wf h0" "0 < s_capacity h0" "s_bucket h0 None = []"
    using assms(1,3) by (auto simp: s_wf_init HashSet_def s_bucket_def split: if_splits)
  from s_run_finite_keys [OF h0 assms(5,4)]
  have s: "s_wf s" "0 < s_capacity s" "s_bucket s None = []" by simp_all
  note add = s_add_finite_hash [OF s assms(6,7)]
  have "s_run h0 (ops @ [Add key]) = Inr s'"
    using assms(4,7) by (induction ops arbitrary: h0) (auto split: sum.splits)
  with s_load_ok_init [OF assms(2,3)] have "s_load_ok s'" by (rule s_run_load_ok)
  then have "\<not> s_shouldResize s'" by (rule s_load_ok_not_shouldResize)
  moreover have "s_has s' key" using add(1) by simp
  ultimately have "s_add s' key = Inr s'" by (simp add: s_add_present)
  with add(1,2) show ?thesis by simp
qed

subsection \<open>The long key as the 13th key of a default table\<close>

lemma m_get_absent: "\<not> m_has s key \<Longrightarrow> m_get s key = JNull"
  by (simp add: m_has_def m_get_def chain_get_absent)

text \<open>
  The same loss with the default parameters: after any 12 distinct other keys, the 13th
  insertion resizes, and when its key is the long key, that key is gone when the call returns.
\<close>

lemma long_key_lost_at_13th_insertion:
  assumes "distinct (map fst kvs)" and "length kvs = 12" and "long_key \<notin> set (map fst kvs)"
  shows "\<exists>m. m_run map16 (map (\<lambda>(k, v). Set k v) (kvs @ [(long_key, v)])) = Inr m \<and>
           m_capacity m = 32 \<and> m_get m long_key = JNull \<and> \<not> m_has m long_key"
proof -
  from first_12_do_not_resize [OF assms(1)] assms(2)
  obtain s where s: "m_rehash map16 kvs = Inr s" "m_capacity s = 16" "m_loadFactor s = 3 / 4"
    "m_size s = 12" "\<forall>k. m_has s k = (k \<in> set (map fst kvs))" "m_wf s"
    by auto
  have absent: "\<not> m_has s long_key" using s(5) assms(3) by simp
  define s1 where "s1 = fst (m_put s long_key v)"
  have put: "m_put s long_key v = (s1, True)"
    using absent by (simp add: s1_def m_put_eq m_has_def)
  have wf1: "m_wf s1" unfolding s1_def using s(6) by (rule m_wf_put)
  have f1: "m_capacity s1 = 16" "m_loadFactor s1 = 3 / 4" "m_size s1 = 13"
    using s(2,3,4) absent by (simp_all add: s1_def m_put_eq m_has_def)
  have over: "m_shouldResize s1"
    using load_16_values(13) by (simp add: m_shouldResize_def f1)
  have fresh: "m_size (m_fresh s1) = 0" "m_capacity (m_fresh s1) = 32"
    "m_loadFactor (m_fresh s1) = 3 / 4"
    by (simp_all add: m_fresh_def f1)
  have len: "int (length (m_entries s1)) \<le> 13"
    using m_wf_entries_length [OF wf1] f1(3) by simp
  have "\<forall>j \<in> {m_size (m_fresh s1) + 1 .. m_size (m_fresh s1) + int (length (m_entries s1))}.
          \<not> load_exceeded j (m_capacity (m_fresh s1)) (m_loadFactor (m_fresh s1))"
    using len by (auto simp: fresh intro!: load_32_range)
  from m_rehash_no_resize [OF m_wf_entries_distinct [OF wf1] _ this]
  obtain m where m: "m_rehash (m_fresh s1) (m_entries s1) = Inr m" "m_capacity m = 32"
    "\<forall>k. m_has m k = (k \<in> set (map fst (m_entries s1)))"
    by (auto simp: m_has_fresh fresh)
  have gone: "\<not> m_has m long_key"
    using m(3) m_wf_entries_finite [OF wf1, of long_key] hash_long_key by auto
  have "m_set s long_key v = Inr m"
    by (simp add: m_set.simps put over m_resize.simps f1 valid_array_length_def m(1))
  then have "m_rehash map16 (kvs @ [(long_key, v)]) = Inr m"
    by (simp add: m_rehash_append s(1))
  then have "m_run map16 (map (\<lambda>(k, v). Set k v) (kvs @ [(long_key, v)])) = Inr m"
    by (simp only: m_run_sets)
  with m(2) gone m_get_absent [OF gone] show ?thesis by blast
qed

section \<open>The claims\<close>

text \<open>
  C1 (round trip).  On \<open>new HashMap(1, 0.5)\<close>, \<open>set('a'.repeat(400), 1)\<close> returns, and
  immediately afterwards \<open>get\<close> of the same key is \<open>null\<close> and \<open>has\<close> is false: the node was
  stored under the property \<open>NaN\<close>, which the traversal of the resize that the same call
  triggers does not visit.  (With the default parameters the same happens at a 13th insertion,
  \<open>long_key_lost_at_13th_insertion\<close>; for keys whose hash is finite, all keys of at most 143
  code units among them, the round trip holds, \<open>round_trip_finite_hash\<close>.)
\<close>

theorem round_trip_lost_on_resize:
  "HashMap 1 (1 / 2) = Inr map1 \<and> m_set map1 long_key (JNum 1) = Inr map2 \<and>
   m_get map2 long_key = JNull \<and> \<not> m_has map2 long_key"
  using HashMap_1 m_set_map1_long by (simp add: m_get_def m_has_def map2_def)

text \<open>
  C2 (update in place).  For every key already present in a map, \<open>set(k, v2)\<close> returns with
  the stored value overwritten: \<open>length()\<close> and the capacity are what they were before the call
  (no node is added and no resize runs), and afterwards \<open>get(k)\<close> is \<open>v2\<close>.  This holds in
  every state of the table.
\<close>

theorem set_present_updates_in_place:
  assumes "m_has s key"
  shows "\<exists>s'. m_set s key v2 = Inr s' \<and> m_length s' = m_length s \<and>
           m_capacity s' = m_capacity s \<and> m_get s' key = v2 \<and> m_has s' key"
  using assms
  by (simp add: m_set_present m_length_def m_get_def m_has_def m_index_def chain_set_get chain_set_has)

theorem set_present_updates_in_place_witness:
  "m_has map_a [97] \<and>
   (\<exists>s'. m_set map_a [97] (JNum 2) = Inr s' \<and> m_length s' = m_length map_a \<and>
      m_capacity s' = m_capacity map_a \<and> m_get s' [97] = JNum 2 \<and> m_has s' [97])"
  using set_present_updates_in_place [of map_a "[97]" "JNum 2"] m_has_map_a(1) by simp

text \<open>
  C3 (removal).  In every state that a program reaches from the constructor, \<open>remove(k)\<close>
  returns whether \<open>k\<close> was present; afterwards \<open>has(k)\<close> is false; and \<open>length()\<close> has gone
  down by exactly 1 when the key was present (at the head of its chain or deeper) and is
  unchanged when it was absent.
\<close>

theorem remove_reports_and_uncounts:
  assumes "HashMap c lf = Inr m0" and "m_run m0 ops = Inr s"
  shows "snd (m_remove s key) = m_has s key \<and>
         \<not> m_has (fst (m_remove s key)) key \<and>
         m_length (fst (m_remove s key)) = m_length s - (if m_has s key then 1 else 0)"
proof -
  have "m_chains_distinct s" using assms by (rule m_run_chains_distinct)
  then show ?thesis
    by (auto simp: m_remove_eq m_length_def m_has_def m_index_def m_chains_distinct_def
        chain_remove_has)
qed

theorem remove_reports_and_uncounts_witness:
  "HashMap 16 (3 / 4) = Inr map16 \<and> m_run map16 [Set [97] (JNum 1)] = Inr map_a \<and>
   snd (m_remove map_a [97]) \<and> \<not> m_has (fst (m_remove map_a [97])) [97] \<and>
   m_length (fst (m_remove map_a [97])) = m_length map_a - 1 \<and>
   \<not> snd (m_remove map_a [98]) \<and> m_length (fst (m_remove map_a [98])) = m_length map_a"
proof -
  have run: "m_run map16 [Set [97] (JNum 1)] = Inr map_a"
    by (simp add: m_set_map16_a)
  from remove_reports_and_uncounts [OF HashMap_16 run, of "[97]"]
    remove_reports_and_uncounts [OF HashMap_16 run, of "[98]"]
    HashMap_16 run m_has_map_a
  show ?thesis by simp
qed

text \<open>
  C4 (load-factor bound).  For a map or a set constructed with a positive capacity and a load
  factor in (0, 1], after every finite sequence of calls that returns (insertions, and also
  removals and clears) the comparison \<open>size / capacity <= loadFactor\<close> holds, as JavaScript
  evaluates it, with the quotient rounded to a double.
\<close>

theorem load_within_factor_on_return:
  "(0 < c \<and> 0 < lf \<and> lf \<le> 1 \<and> HashMap c lf = Inr m0 \<and> m_run m0 mops = Inr m
      \<longrightarrow> js_le (js_div (m_size m) (m_capacity m)) (m_loadFactor m)) \<and>
   (0 < c \<and> 0 < lf \<and> lf \<le> 1 \<and> HashSet c lf = Inr h0 \<and> s_run h0 sops = Inr h
      \<longrightarrow> js_le (js_div (s_size h) (s_capacity h)) (s_loadFactor h))"
  using m_load_bound [of c lf m0 mops m] s_load_bound [of c lf h0 sops h] by simp

theorem load_within_factor_on_return_witness:
  "(0::nat) < 16 \<and> (0::rat) < 3 / 4 \<and> (3 / 4 :: rat) \<le> 1 \<and>
   HashMap 16 (3 / 4) = Inr map16 \<and> m_run map16 [Set [97] (JNum 1)] = Inr map_a \<and>
   js_le (js_div (m_size map_a) (m_capacity map_a)) (m_loadFactor map_a) \<and>
   HashSet 16 (3 / 4) = Inr set16 \<and> s_run set16 [Add [97]] = Inr set_a \<and>
   js_le (js_div (s_size set_a) (s_capacity set_a)) (s_loadFactor set_a)"
proof -
  have mrun: "m_run map16 [Set [97] (JNum 1)] = Inr map_a"
    by (simp add: m_set_map16_a)
  have srun: "s_run set16 [Add [97]] = Inr set_a"
    by (simp add: s_add_set16_a)
  from load_within_factor_on_return [of 16 "3 / 4" map16 "[Set [97] (JNum 1)]" map_a set16 "[Add [97]]" set_a]
    HashMap_16 HashSet_16 mrun srun
  show ?thesis by simp
qed

text \<open>
  C5 as amended (absent keys).  \<open>get\<close> answers \<open>null\<close> for a key that is not present, and the
  stored value for a key that is present (\<open>m_lookup s key = Some v\<close>: the first node of the
  key in its bucket holds \<open>v\<close>; \<open>has\<close> is true exactly of the keys that have such a node).
  So \<open>get\<close> answers \<open>null\<close> exactly when the key is absent or is mapped to \<open>null\<close>: a key
  mapped to any other value, the falsy values \<open>false\<close>, \<open>0\<close>, \<open>''\<close> and \<open>undefined\<close>
  included, is told apart from an absent key by \<open>get\<close> alone, and a key mapped to \<open>null\<close> is
  told apart from an absent key only by \<open>has\<close>.
\<close>

theorem get_null_iff_absent_or_null:
  "(\<not> m_has s key \<longrightarrow> m_get s key = JNull) \<and>
   (m_has s key = (\<exists>w. m_lookup s key = Some w)) \<and>
   (m_lookup s key = Some v \<longrightarrow> m_get s key = v) \<and>
   (m_lookup s key = Some v \<and> v \<noteq> JNull \<longrightarrow> m_has s key \<and> m_get s key \<noteq> JNull) \<and>
   ((m_get s key = JNull) = (\<not> m_has s key \<or> m_lookup s key = Some JNull))"
proof -
  have has: "m_has s key = (\<exists>w. m_lookup s key = Some w)"
    by (simp add: m_has_lookup)
  have get: "m_get s key = (case m_lookup s key of None \<Rightarrow> JNull | Some w \<Rightarrow> w)"
    by (rule m_get_lookup)
  show ?thesis
  proof (cases "m_lookup s key")
    case None
    with has get show ?thesis by simp
  next
    case (Some w)
    with has get show ?thesis by auto
  qed
qed

theorem get_null_iff_absent_or_null_witness:
  "HashMap 16 (3 / 4) = Inr map16 \<and>
   \<not> m_has map16 [97] \<and> m_get map16 [97] = JNull \<and>
   m_set map16 [97] (JNum 0) = Inr map_zero \<and> m_lookup map_zero [97] = Some (JNum 0) \<and>
   m_has map_zero [97] \<and> m_get map_zero [97] = JNum 0 \<and> m_get map_zero [97] \<noteq> JNull \<and>
   m_set map16 [97] JNull = Inr map_null \<and> m_lookup map_null [97] = Some JNull \<and>
   m_has map_null [97] \<and> m_get map_null [97] = JNull"
  using get_null_iff_absent_or_null [of map16 "[97]" "JNum 0"]
    get_null_iff_absent_or_null [of map_zero "[97]" "JNum 0"]
    get_null_iff_absent_or_null [of map_null "[97]" JNull]
    HashMap_16 m_set_map16_zero m_set_map16_null m_lookup_scenarios
  by simp

text \<open>
  C5 as stated fails: after \<open>set('a', null)\<close> on a new map the key is present and \<open>get('a')\<close>
  is \<open>null\<close>, the same result as \<open>get('a')\<close> on the new map, where the key is absent.
\<close>

theorem absent_result_not_distinct:
  "HashMap 16 (3 / 4) = Inr map16 \<and> m_set map16 [97] JNull = Inr map_null \<and>
   m_has map_null [97] \<and> \<not> m_has map16 [97] \<and>
   m_get map_null [97] = m_get map16 [97]"
  by (simp add: HashMap_16 m_set_map16_null m_has_map_a m_get_def m_index_16_a)
     (simp add: map_null_def map16_def)

text \<open>
  C6 (capacity).  Over every sequence of calls on a map or a set the capacity never decreases.
  An insertion multiplies it by a power of two; \<open>remove\<close> leaves it as it is (\<open>get\<close>, \<open>has\<close>,
  \<open>keys\<close>, \<open>values\<close> and \<open>entries\<close> return no table at all); and \<open>clear\<close>, in every state
  reached from the constructor, returns the table with an empty bucket array, size 0 and the
  capacity it had at the call.
\<close>

theorem capacity_never_decreases:
  "(m_run s mops = Inr s' \<longrightarrow> m_capacity s \<le> m_capacity s') \<and>
   (m_set s key v = Inr s1 \<longrightarrow> (\<exists>n. m_capacity s1 = m_capacity s * 2 ^ n)) \<and>
   m_capacity (fst (m_remove s key)) = m_capacity s \<and>
   (HashMap c lf = Inr s \<and> m_run s mops = Inr s'
      \<longrightarrow> m_clear s' = Inr (s'\<lparr>m_storage := (\<lambda>_. []), m_size := 0\<rparr>)) \<and>
   (s_run h sops = Inr h' \<longrightarrow> s_capacity h \<le> s_capacity h') \<and>
   (s_add h key = Inr h1 \<longrightarrow> (\<exists>n. s_capacity h1 = s_capacity h * 2 ^ n)) \<and>
   s_capacity (fst (s_remove h key)) = s_capacity h \<and>
   (HashSet c lf = Inr h \<and> s_run h sops = Inr h'
      \<longrightarrow> s_clear h' = Inr (h'\<lparr>s_storage := (\<lambda>_. None), s_size := 0\<rparr>))"
proof (intro conjI impI)
  show "m_capacity s \<le> m_capacity s'" if "m_run s mops = Inr s'"
    using that by (rule m_run_capacity)
  show "\<exists>n. m_capacity s1 = m_capacity s * 2 ^ n" if "m_set s key v = Inr s1"
    using that by (rule m_set_capacity_doubles)
  show "m_capacity (fst (m_remove s key)) = m_capacity s"
    by (simp add: m_remove_eq)
  show "m_clear s' = Inr (s'\<lparr>m_storage := (\<lambda>_. []), m_size := 0\<rparr>)"
    if "HashMap c lf = Inr s \<and> m_run s mops = Inr s'"
    using that m_run_valid_capacity [of c lf s mops s'] by (simp add: m_clear_def)
  show "s_capacity h \<le> s_capacity h'" if "s_run h sops = Inr h'"
    using that by (rule s_run_capacity)
  show "\<exists>n. s_capacity h1 = s_capacity h * 2 ^ n" if "s_add h key = Inr h1"
    using that by (rule s_add_capacity_doubles)
  show "s_capacity (fst (s_remove h key)) = s_capacity h"
    by (rule s_remove_fields)
  show "s_clear h' = Inr (h'\<lparr>s_storage := (\<lambda>_. None), s_size := 0\<rparr>)"
    if "HashSet c lf = Inr h \<and> s_run h sops = Inr h'"
    using that s_run_valid_capacity [of c lf h sops h'] by (simp add: s_clear_def)
qed

theorem capacity_never_decreases_witness:
  "m_run map16 [Set [97] (JNum 1)] = Inr map_a \<and> m_capacity map16 \<le> m_capacity map_a \<and>
   m_set map16 [97] (JNum 1) = Inr map_a \<and> (\<exists>n. m_capacity map_a = m_capacity map16 * 2 ^ n) \<and>
   HashMap 16 (3 / 4) = Inr map16 \<and>
   m_clear map_a = Inr (map_a\<lparr>m_storage := (\<lambda>_. []), m_size := 0\<rparr>) \<and>
   s_run set16 [Add [97]] = Inr set_a \<and> s_capacity set16 \<le> s_capacity set_a \<and>
   s_add set16 [97] = Inr set_a \<and> (\<exists>n. s_capacity set_a = s_capacity set16 * 2 ^ n) \<and>
   HashSet 16 (3 / 4) = Inr set16 \<and>
   s_clear set_a = Inr (set_a\<lparr>s_storage := (\<lambda>_. None), s_size := 0\<rparr>)"
proof -
  have mrun: "m_run map16 [Set [97] (JNum 1)] = Inr map_a"
    by (simp add: m_set_map16_a)
  have srun: "s_run set16 [Add [97]] = Inr set_a"
    by (simp add: s_add_set16_a)
  from capacity_never_decreases [of map16 "[Set [97] (JNum 1)]" map_a "[97]" "JNum 1" map_a 16 "3 / 4"
      set16 "[Add [97]]" set_a set_a]
    mrun srun m_set_map16_a s_add_set16_a HashMap_16 HashSet_16
  show ?thesis by simp
qed

text \<open>
  C7 (add idempotence).  On \<open>new HashSet(1, 0.5)\<close>, which does not contain the key
  \<open>'a'.repeat(400)\<close>, the first \<open>add\<close> of that key returns with \<open>length()\<close> unchanged and the
  key still not contained; the second \<open>add\<close> of the same key is then not a no-op, it raises
  \<open>length()\<close> by 1.  (For programs that add only keys whose hash is finite, the claim holds,
  \<open>add_idempotent_finite_hash\<close>.)
\<close>

theorem first_add_lost_on_resize:
  "HashSet 1 (1 / 2) = Inr set1 \<and> \<not> s_has set1 long_key \<and>
   s_add set1 long_key = Inr set2 \<and> s_length set2 = s_length set1 \<and> \<not> s_has set2 long_key \<and>
   s_add set2 long_key = Inr set2_long \<and> s_length set2_long = s_length set2 + 1"
  using HashSet_1 s_add_set1_long s_add_set2_long
  by (simp add: s_has_def s_length_def set1_def set2_def set2_long_def)

text \<open>
  C8 (hash and index).  The hash is the rolling hash \<open>31 * hash + charCode\<close> from 0, computed
  in double arithmetic, and the index is its remainder by the capacity.  For the key
  \<open>'a'.repeat(400)\<close> the hash overflows to \<open>Infinity\<close> and the index in a table of capacity 16
  is \<open>NaN\<close>, not a number in \<open>0 .. 15\<close>.  (A key whose hash is finite has its index below
  the capacity, \<open>getIndex_in_range\<close>, and every key of at most 143 code units has a finite
  hash, \<open>hash_finite\<close>.)
\<close>

theorem index_of_long_key_is_NaN:
  "hash long_key = Infinity \<and> getIndex (hash long_key) 16 = None"
  by (simp add: hash_long_key)

text \<open>
  C9 (the resize trigger).  On \<open>new HashMap(16, 0.75)\<close>, inserting 13 distinct keys one at a
  time: after each of the first 12 insertions the capacity is still 16 and \<open>length()\<close> is the
  number of keys inserted; the 13th insertion returns with capacity 32, one doubling.
\<close>

theorem resize_on_13th_insertion:
  assumes "distinct (map fst kvs)" and "length kvs = 13" and "HashMap 16 (3 / 4) = Inr m0"
  shows "(\<forall>n \<le> 12. \<exists>m. m_run m0 (map (\<lambda>(k, v). Set k v) (take n kvs)) = Inr m \<and>
            m_capacity m = 16 \<and> m_length m = int n) \<and>
         (\<exists>m. m_run m0 (map (\<lambda>(k, v). Set k v) kvs) = Inr m \<and> m_capacity m = 32)"
proof -
  have m0: "m0 = map16" using assms(3) by (simp add: HashMap_16)
  have prefix: "\<exists>m. m_rehash map16 (take n kvs) = Inr m \<and> m_capacity m = 16 \<and>
      m_loadFactor m = 3 / 4 \<and> m_size m = int n \<and>
      (\<forall>k. m_has m k = (k \<in> set (map fst (take n kvs)))) \<and> m_wf m" if "n \<le> 12" for n
  proof -
    have "distinct (map fst (take n kvs))"
      using assms(1) by (simp add: take_map [symmetric])
    moreover have "length (take n kvs) \<le> 12" using that by simp
    ultimately show ?thesis
      using first_12_do_not_resize [of "take n kvs"] that assms(2) by (simp add: min_def)
  qed
  have part1: "\<forall>n \<le> 12. \<exists>m. m_run m0 (map (\<lambda>(k, v). Set k v) (take n kvs)) = Inr m \<and>
            m_capacity m = 16 \<and> m_length m = int n"
    using prefix by (simp add: m_run_sets m0 m_length_def) blast
  obtain key v where last: "kvs ! 12 = (key, v)" by (cases "kvs ! 12")
  have "take (Suc 12) kvs = take 12 kvs @ [kvs ! 12]"
    by (rule take_Suc_conv_app_nth) (simp add: assms(2))
  moreover have "take (Suc 12) kvs = kvs" using assms(2) by simp
  ultimately have split: "kvs = take 12 kvs @ [(key, v)]" using last by simp
  from prefix [of 12] obtain s12 where s12: "m_rehash map16 (take 12 kvs) = Inr s12"
    "m_capacity s12 = 16" "m_loadFactor s12 = 3 / 4" "m_size s12 = 12"
    "\<forall>k. m_has s12 k = (k \<in> set (map fst (take 12 kvs)))" "m_wf s12"
    by auto
  have "key \<notin> set (map fst (take 12 kvs))"
  proof -
    have "distinct (map fst (take 12 kvs) @ [key])"
      using assms(1) by (subst (asm) split) simp
    then show ?thesis by simp
  qed
  then have "\<not> m_has s12 key" using s12(5) by simp
  from thirteenth_resizes_once [OF s12(6) s12(2) s12(3) s12(4) this, of v]
  obtain m where m: "m_set s12 key v = Inr m" "m_capacity m = 32" by blast
  have "m_rehash map16 kvs = Inr m"
    by (subst split) (simp add: m_rehash_append s12(1) m(1))
  then have "\<exists>m. m_run m0 (map (\<lambda>(k, v). Set k v) kvs) = Inr m \<and> m_capacity m = 32"
    using m(2) by (simp add: m_run_sets m0)
  with part1 show ?thesis by blast
qed

theorem resize_on_13th_insertion_witness:
  "distinct (map fst thirteen_keys) \<and> length thirteen_keys = 13 \<and>
   HashMap 16 (3 / 4) = Inr map16 \<and> (12::nat) \<le> 12 \<and>
   (\<exists>m. m_run map16 (map (\<lambda>(k, v). Set k v) (take 12 thirteen_keys)) = Inr m \<and>
        m_capacity m = 16 \<and> m_length m = 12) \<and>
   (\<exists>m. m_run map16 (map (\<lambda>(k, v). Set k v) thirteen_keys) = Inr m \<and> m_capacity m = 32)"
proof -
  have d: "distinct (map fst thirteen_keys)" by (simp add: thirteen_keys_def)
  have l: "length thirteen_keys = 13" by (simp add: thirteen_keys_def)
  from resize_on_13th_insertion [OF d l HashMap_16] d l HashMap_16
  show ?thesis by auto
qed

text \<open>
  C10 (traversals).  On \<open>new HashMap(16, 0.75)\<close>, after \<open>set('a'.repeat(400), 1)\<close> the table
  reports \<open>length()\<close> 1 while \<open>keys()\<close>, \<open>values()\<close> and \<open>entries()\<close> are empty: the three
  traversals agree with one another, not with \<open>length()\<close>.  (For programs that store only
  keys whose hash is finite, the claim holds, \<open>traversal_consistent_finite_hash\<close>.)
\<close>

theorem traversal_misses_NaN_bucket:
  "HashMap 16 (3 / 4) = Inr map16 \<and> m_set map16 long_key (JNum 1) = Inr map_long \<and>
   m_length map_long = 1 \<and> m_keys map_long = [] \<and> m_values map_long = [] \<and>
   m_entries map_long = []"
  by (simp add: HashMap_16 m_set_map16_long m_length_def m_keys_def m_values_def m_entries_def)
     (simp add: map_long_def)

end
